theory Spec2Isabelle
  imports Main "HOL-Library.Char_ord" "HOL-Library.List_Lexorder" "HOL-Library.AList"
begin

section \<open>Values, errors and string helpers\<close>

text \<open>
  A decoded configuration value is a Go \<^verbatim>\<open>any\<close>: \<^verbatim>\<open>nil\<close>, a bool, an integer, a string,
  a \<^verbatim>\<open>[]any\<close>, a \<^verbatim>\<open>map[string]any\<close>, or a \<^verbatim>\<open>map[interface{}]interface{}\<close>, which the
  YAML decoder produces for a mapping with a key that is not a string. Every other dynamic
  type the decoder can produce (float64, time.Time) is a scalar, \<open>VOther\<close>.
  A \<^verbatim>\<open>map[string]any\<close> is an association list; \<open>map_of\<close> reads it, so the first
  binding of a key is the one that counts, and \<open>AList.update\<close> writes it. A
  \<^verbatim>\<open>map[interface{}]interface{}\<close> is an association list whose keys are values.
\<close>

datatype node =
    VNil
  | VBool bool
  | VInt int
  | VStr string
  | VList "node list"
  | VMap "(string \<times> node) list"
  | VAnyMap "(node \<times> node) list"
  | VOther string

text \<open>
  Go errors. \<open>Wrap msg e\<close> is \<^verbatim>\<open>fmt.Errorf("msg: %w", e)\<close>; \<open>ErrNotExist\<close> is
  \<^verbatim>\<open>fs.ErrNotExist\<close> and \<open>errorsIsNotExist\<close> is \<^verbatim>\<open>errors.Is(err, fs.ErrNotExist)\<close>,
  which looks through every wrapper.
\<close>

datatype error = ErrNotExist | Err string | Wrap string error

fun errorsIsNotExist :: "error \<Rightarrow> bool" where
  "errorsIsNotExist ErrNotExist = True"
| "errorsIsNotExist (Err _) = False"
| "errorsIsNotExist (Wrap _ e) = errorsIsNotExist e"

definition HasSuffix :: "string \<Rightarrow> string \<Rightarrow> bool" where
  "HasSuffix s suffix =
     (length suffix \<le> length s \<and> drop (length s - length suffix) s = suffix)"

definition HasPrefix :: "string \<Rightarrow> string \<Rightarrow> bool" where
  "HasPrefix s prefix = (length prefix \<le> length s \<and> take (length prefix) s = prefix)"

definition TrimSuffix :: "string \<Rightarrow> string \<Rightarrow> string" where
  "TrimSuffix s suffix =
     (if HasSuffix s suffix then take (length s - length suffix) s else s)"

text \<open>\<^verbatim>\<open>v[key]\<close> on a Go map: the zero value \<^verbatim>\<open>nil\<close> when the key is absent.\<close>

definition index :: "(string \<times> node) list \<Rightarrow> string \<Rightarrow> node" where
  "index v key = (case map_of v key of None \<Rightarrow> VNil | Some x \<Rightarrow> x)"

definition TrimPrefix :: "string \<Rightarrow> string \<Rightarrow> string" where
  "TrimPrefix s prefix = (if HasPrefix s prefix then drop (length prefix) s else s)"

section \<open>Environment expansion (package env)\<close>

text \<open>
  \<^verbatim>\<open>envPattern\<close> is the regular expression \<^verbatim>\<open>\$\{([A-Z0-9_]+)\}\<close>. \<open>matchPrefix s\<close> is its
  match anchored at the start of \<open>s\<close>: the name in the group and the text after the closing
  brace. The group is greedy and the brace is not a name character, so a match at a position
  is unique.
\<close>

definition isNameChar :: "char \<Rightarrow> bool" where
  "isNameChar c =
     ((CHR ''A'' \<le> c \<and> c \<le> CHR ''Z'') \<or> (CHR ''0'' \<le> c \<and> c \<le> CHR ''9'') \<or> c = CHR ''_'')"

definition matchPrefix :: "string \<Rightarrow> (string \<times> string) option" where
  "matchPrefix s =
     (if HasPrefix s ''${'' then
        (let name = takeWhile isNameChar (drop 2 s);
             rest = dropWhile isNameChar (drop 2 s)
         in if name \<noteq> [] \<and> HasPrefix rest ''}'' then Some (name, drop 1 rest) else None)
      else None)"

text \<open>
  \<^verbatim>\<open>envPattern.FindSubmatch\<close>: the groups of the leftmost match, the whole match and the
  name, or no groups at all.
\<close>

fun FindSubmatch :: "string \<Rightarrow> string list" where
  "FindSubmatch [] = []"
| "FindSubmatch (c # cs) =
     (case matchPrefix (c # cs) of
        Some (name, rest) \<Rightarrow> [''${'' @ name @ ''}'', name]
      | None \<Rightarrow> FindSubmatch cs)"

text \<open>
  \<^verbatim>\<open>envPattern.ReplaceAllFunc\<close>: the matches are found from left to right, do not overlap,
  and each is replaced by what \<open>repl\<close> returns for it.
\<close>

function ReplaceAllFunc :: "(string \<Rightarrow> string) \<Rightarrow> string \<Rightarrow> string" where
  "ReplaceAllFunc repl [] = []"
| "ReplaceAllFunc repl (c # cs) =
     (case matchPrefix (c # cs) of
        Some (name, rest) \<Rightarrow> repl (''${'' @ name @ ''}'') @ ReplaceAllFunc repl rest
      | None \<Rightarrow> c # ReplaceAllFunc repl cs)"
  by pat_completeness auto
termination
proof (relation "measure (\<lambda>(repl, data). length data)", goal_cases)
  case (3 repl c cs x2 name rest)
  then have "rest = drop 1 (dropWhile isNameChar (drop 2 (c # cs)))"
    by (auto simp: matchPrefix_def Let_def split: if_splits)
  moreover have "length (dropWhile isNameChar (drop 2 (c # cs))) \<le> length (drop 2 (c # cs))"
    by (rule length_dropWhile_le)
  ultimately show ?case by simp
qed simp_all

text \<open>The resolver is its variable table; \<open>Expand\<close> always returns a nil error.\<close>

type_synonym Resolver = "string \<rightharpoonup> string"

definition Expand :: "Resolver \<Rightarrow> string \<Rightarrow> error + string" where
  "Expand r data =
     Inr (ReplaceAllFunc
            (\<lambda>match.
               let groups = FindSubmatch match in
               if length groups \<noteq> 2 then match
               else (let key = groups ! 1 in
                     case r key of Some val \<Rightarrow> val | None \<Rightarrow> match))
            data)"

text \<open>\<^verbatim>\<open>%d\<close> of a slice index, for the error text of \<open>ExpandMap\<close>.\<close>

fun showNat :: "nat \<Rightarrow> string" where
  "showNat n =
     (if n < 10 then [char_of (48 + n)] else showNat (n div 10) @ [char_of (48 + n mod 10)])"

text \<open>
  \<open>ExpandMap\<close> rewrites the map it is given and returns an error or nil. The model returns
  the rewritten map, or the error. The entries are visited in the order of the list: Go
  visits them in an unspecified order, and each entry is processed on its own. An item of a
  list is expanded when it is a string, and descended into when it is a map; every other
  item, a list among them, is skipped.
\<close>

function ExpandMap :: "Resolver \<Rightarrow> (string \<times> node) list \<Rightarrow> error + (string \<times> node) list"
  and expandItems :: "Resolver \<Rightarrow> string \<Rightarrow> nat \<Rightarrow> node list \<Rightarrow> error + node list"
where
  "ExpandMap r [] = Inr []"
| "ExpandMap r ((key, val) # values) =
     (case (case val of
              VStr typed \<Rightarrow>
                (case Expand r typed of
                   Inl err \<Rightarrow> Inl (Wrap (''expand key '' @ key) err)
                 | Inr expanded \<Rightarrow> Inr (VStr expanded))
            | VMap typed \<Rightarrow>
                (case ExpandMap r typed of
                   Inl err \<Rightarrow> Inl err
                 | Inr typed' \<Rightarrow> Inr (VMap typed'))
            | VList typed \<Rightarrow>
                (case expandItems r key 0 typed of
                   Inl err \<Rightarrow> Inl err
                 | Inr typed' \<Rightarrow> Inr (VList typed'))
            | _ \<Rightarrow> Inr val) of
        Inl err \<Rightarrow> Inl err
      | Inr val' \<Rightarrow>
          (case ExpandMap r values of
             Inl err \<Rightarrow> Inl err
           | Inr values' \<Rightarrow> Inr ((key, val') # values')))"
| "expandItems r key i [] = Inr []"
| "expandItems r key i (item # items) =
     (case (case item of
              VStr str \<Rightarrow>
                (case Expand r str of
                   Inl err \<Rightarrow>
                     Inl (Wrap (''expand list item '' @ key @ ''['' @ showNat i @ '']'') err)
                 | Inr expanded \<Rightarrow> Inr (VStr expanded))
            | VMap nested \<Rightarrow>
                (case ExpandMap r nested of
                   Inl err \<Rightarrow> Inl err
                 | Inr nested' \<Rightarrow> Inr (VMap nested'))
            | _ \<Rightarrow> Inr item) of
        Inl err \<Rightarrow> Inl err
      | Inr item' \<Rightarrow>
          (case expandItems r key (Suc i) items of
             Inl err \<Rightarrow> Inl err
           | Inr items' \<Rightarrow> Inr (item' # items')))"
  by pat_completeness auto
termination
  by (relation "measure (\<lambda>a. case a of
         Inl (r, values) \<Rightarrow> size (VMap values)
       | Inr (r, key, i, items) \<Rightarrow> size (VList items))") auto


section \<open>Sources (package source)\<close>

definition ParseScheme :: "string \<Rightarrow> string" where
  "ParseScheme path =
     (if HasPrefix path ''git+'' then ''git''
      else if HasPrefix path ''s3://'' then ''s3''
      else if HasPrefix path ''oci://'' then ''oci''
      else ''local'')"

text \<open>
  A \<^verbatim>\<open>*url.URL\<close> with the fields the code reads, and the three sources. The fields
  \<^verbatim>\<open>url\<close>, \<^verbatim>\<open>subdir\<close>, \<^verbatim>\<open>ref\<close> and \<^verbatim>\<open>path\<close> of a git source carry a \<open>g\<close>; \<open>gurl\<close> is the
  parsed URL after its fragment and path were cleared.
\<close>

record URL =
  Scheme :: string
  Host :: string
  Path :: string
  Fragment :: string

record gitSource =
  gurl :: URL
  gsubdir :: string
  gref :: string
  gpath :: string

datatype Source =
    GitSource gitSource
  | S3Source string string
  | OCISource string

text \<open>
  \<open>Factory.New\<close> and the three constructors; \<open>parse\<close> is \<^verbatim>\<open>url.Parse\<close>.
\<close>

definition newS3Source :: "(string \<Rightarrow> error + URL) \<Rightarrow> string \<Rightarrow> error + Source" where
  "newS3Source parse raw =
     (case parse raw of
        Inl err \<Rightarrow> Inl err
      | Inr u \<Rightarrow> Inr (S3Source (Host u) (TrimPrefix (Path u) ''/'')))"

definition newOCISource :: "string \<Rightarrow> error + Source" where
  "newOCISource raw = Inr (OCISource (TrimPrefix raw ''oci://''))"

definition newGitSource :: "(string \<Rightarrow> error + URL) \<Rightarrow> string \<Rightarrow> error + Source" where
  "newGitSource parse raw =
     (let trimmed = TrimPrefix raw ''git+'' in
      case parse trimmed of
        Inl err \<Rightarrow> Inl (Wrap (''parse git source '' @ raw) err)
      | Inr u \<Rightarrow>
          Inr (GitSource
                 \<lparr>gurl = u\<lparr>Fragment := [], Path := []\<rparr>,
                  gsubdir = TrimPrefix (Path u) ''/'',
                  gref = Fragment u,
                  gpath = raw\<rparr>))"

definition Factory_New :: "(string \<Rightarrow> error + URL) \<Rightarrow> string \<Rightarrow> error + Source" where
  "Factory_New parse raw =
     (if HasPrefix raw ''s3://'' then newS3Source parse raw
      else if HasPrefix raw ''oci://'' then newOCISource raw
      else if HasPrefix raw ''git+'' then newGitSource parse raw
      else Inl (Err (''unsupported source '' @ raw)))"

record BasicAuth =
  Username :: string
  Password :: string

text \<open>\<^verbatim>\<open>os.Getenv\<close>: the empty string for a variable that is not set.\<close>

definition Getenv :: "(string \<rightharpoonup> string) \<Rightarrow> string \<Rightarrow> string" where
  "Getenv environ key = (case environ key of None \<Rightarrow> [] | Some v \<Rightarrow> v)"

definition basicAuthFromEnv :: "(string \<rightharpoonup> string) \<Rightarrow> BasicAuth option" where
  "basicAuthFromEnv environ =
     (let user = Getenv environ ''TMPL_GIT_USERNAME'';
          pass = Getenv environ ''TMPL_GIT_PASSWORD''
      in if user = [] \<and> pass = [] then None
         else Some \<lparr>Username = user, Password = pass\<rparr>)"

text \<open>
  What \<open>gitSource.Fetch\<close> calls: the process environment, the temporary directory it
  picks, go-git's clone, worktree and checkout, and \<^verbatim>\<open>os.ReadFile\<close>. The file system
  \<open>'fs\<close> is passed through the calls that change it.
\<close>

datatype CheckoutOptions = Branch string | Hash string

record ('fs, 'repo, 'wt) gitWorld =
  Environ :: "string \<rightharpoonup> string"
  TempDir :: string
  URLString :: "URL \<Rightarrow> string"
  PlainCloneContext :: "'fs \<Rightarrow> string \<Rightarrow> string \<Rightarrow> BasicAuth option \<Rightarrow> 'fs \<times> (error + 'repo)"
  Worktree :: "'repo \<Rightarrow> error + 'wt"
  Checkout :: "'fs \<Rightarrow> 'wt \<Rightarrow> CheckoutOptions \<Rightarrow> 'fs \<times> error option"
  JoinPath :: "string \<Rightarrow> string \<Rightarrow> string"
  ReadFileIn :: "'fs \<Rightarrow> string \<Rightarrow> error + string"

text \<open>
  The part of \<open>Fetch\<close> after the clone: the checkout of the ref, as a branch and then as a
  hash, and the read of the file.
\<close>

definition readTarget ::
  "('fs, 'repo, 'wt) gitWorld \<Rightarrow> 'fs \<Rightarrow> gitSource \<Rightarrow> string \<Rightarrow> 'fs \<times> (error + string)" where
  "readTarget w fs g tempDir =
     (let target = JoinPath w tempDir (gsubdir g) in
      case ReadFileIn w fs target of
        Inl err \<Rightarrow> (fs, Inl (Wrap (''read git file '' @ target) err))
      | Inr data \<Rightarrow> (fs, Inr data))"

definition checkoutAndRead ::
  "('fs, 'repo, 'wt) gitWorld \<Rightarrow> 'fs \<Rightarrow> gitSource \<Rightarrow> string \<Rightarrow> 'repo \<Rightarrow> 'fs \<times> (error + string)" where
  "checkoutAndRead w fs g tempDir repo =
     (if gref g \<noteq> [] then
        (case Worktree w repo of
           Inl err \<Rightarrow> (fs, Inl err)
         | Inr wt \<Rightarrow>
             (case Checkout w fs wt (Branch (''refs/heads/'' @ gref g)) of
                (fs1, None) \<Rightarrow> readTarget w fs1 g tempDir
              | (fs1, Some _) \<Rightarrow>
                  (case Checkout w fs1 wt (Hash (gref g)) of
                     (fs2, None) \<Rightarrow> readTarget w fs2 g tempDir
                   | (fs2, Some err) \<Rightarrow> (fs2, Inl (Wrap (''checkout '' @ gref g) err)))))
      else readTarget w fs g tempDir)"

text \<open>
  \<open>Fetch\<close> returns, next to the file system and its result, the \<^verbatim>\<open>Auth\<close> option of
  every clone it attempted, in order.
\<close>

definition Fetch ::
  "('fs, 'repo, 'wt) gitWorld \<Rightarrow> 'fs \<Rightarrow> gitSource
     \<Rightarrow> BasicAuth option list \<times> 'fs \<times> (error + string)" where
  "Fetch w fs g =
     (let tempDir = TempDir w in
      case PlainCloneContext w fs tempDir (URLString w (gurl g)) None of
        (fs1, Inr repo) \<Rightarrow> ([None], checkoutAndRead w fs1 g tempDir repo)
      | (fs1, Inl err) \<Rightarrow>
          (case basicAuthFromEnv (Environ w) of
             Some auth \<Rightarrow>
               (case PlainCloneContext w fs1 tempDir (URLString w (gurl g)) (Some auth) of
                  (fs2, Inr repo) \<Rightarrow> ([None, Some auth], checkoutAndRead w fs2 g tempDir repo)
                | (fs2, Inl err') \<Rightarrow>
                    ([None, Some auth], fs2, Inl (Wrap (''clone git source '' @ gpath g) err')))
           | None \<Rightarrow> ([None], fs1, Inl (Wrap (''clone git source '' @ gpath g) err))))"


section \<open>The loader and its collaborators\<close>

text \<open>
  What lies outside the program is a record of functions: the \<^verbatim>\<open>sops\<close> child process
  (\<^verbatim>\<open>cmd.CombinedOutput\<close>, output and error), the YAML decoder at its two target types
  (\<^verbatim>\<open>any\<close> and \<^verbatim>\<open>map[string]any\<close>), the path and byte helpers of the standard library,
  \<^verbatim>\<open>os.ReadFile\<close>, \<^verbatim>\<open>url.Parse\<close>, the \<^verbatim>\<open>Fetch\<close> method of a source (data and error, as Go
  returns them), and \<^verbatim>\<open>mergo.Merge\<close> with \<^verbatim>\<open>mergo.WithOverride\<close>. \<open>EnvTable\<close> is the variable
  table of the loader's resolver.
\<close>

record world =
  CombinedOutput :: "string \<Rightarrow> string \<times> error option"
  Unmarshal :: "string \<Rightarrow> error + node"
  UnmarshalMap :: "string \<Rightarrow> error + (string \<times> node) list"
  TrimSpace :: "string \<Rightarrow> string"
  IsAbs :: "string \<Rightarrow> bool"
  Join :: "string \<Rightarrow> string \<Rightarrow> string"
  Dir :: "string \<Rightarrow> string"
  ReadFile :: "string \<Rightarrow> error + string"
  URLParse :: "string \<Rightarrow> error + URL"
  SourceFetch :: "Source \<Rightarrow> string \<times> error option"
  Merge :: "(string \<times> node) list \<Rightarrow> (string \<times> node) list \<Rightarrow> error + (string \<times> node) list"
  EnvTable :: Resolver

text \<open>The sops decryptor (internal/sops/sops.go).\<close>

definition DecryptFile :: "world \<Rightarrow> string \<Rightarrow> error + string" where
  "DecryptFile w path =
     (if path = [] then Inl (Err ''missing path for sops decrypt'')
      else case CombinedOutput w path of
             (out, Some err) \<Rightarrow> Inl (Wrap (''sops decrypt file '' @ path @ '': '' @ out) err)
           | (out, None) \<Rightarrow> Inr out)"

subsection \<open>Tree decryption (internal/values/loader.go)\<close>

text \<open>
  \<open>decryptValue\<close> and \<open>decryptValues\<close> return, next to their result, the list of paths
  they passed to \<open>DecryptFile\<close>, in call order.
\<close>

definition resolvePath :: "world \<Rightarrow> string \<Rightarrow> string \<Rightarrow> string" where
  "resolvePath w ref baseDir =
     (if \<not> IsAbs w ref \<and> baseDir \<noteq> [] then Join w baseDir ref else ref)"

definition decryptValue :: "world \<Rightarrow> string \<Rightarrow> string \<Rightarrow> string list \<times> (error + node)" where
  "decryptValue w ref baseDir =
     (let path = resolvePath w ref baseDir in
      case DecryptFile w path of
        Inl err \<Rightarrow> ([path], Inl (Wrap (''decrypt '' @ ref) err))
      | Inr data \<Rightarrow>
          (let trimmed = TrimSpace w data in
           if length trimmed = 0 then ([path], Inr (VStr []))
           else case Unmarshal w trimmed of
                  Inr parsed \<Rightarrow> ([path], Inr parsed)
                | Inl _ \<Rightarrow> ([path], Inr (VStr trimmed))))"

function decryptValues :: "world \<Rightarrow> node \<Rightarrow> string \<Rightarrow> string list \<times> (error + node)"
  and decryptKeys ::
    "world \<Rightarrow> (string \<times> node) list \<Rightarrow> string \<Rightarrow> string list \<Rightarrow> (string \<times> node) list
       \<Rightarrow> string list \<times> (error + node)"
  and decryptItems :: "world \<Rightarrow> node list \<Rightarrow> string \<Rightarrow> string list \<times> (error + node list)"
where
  "decryptValues w (VMap v) baseDir = decryptKeys w v baseDir (sort (map fst v)) []"
| "decryptValues w (VList v) baseDir =
     (case decryptItems w v baseDir of
        (calls, Inl err) \<Rightarrow> (calls, Inl err)
      | (calls, Inr result) \<Rightarrow> (calls, Inr (VList result)))"
| "decryptValues w (VStr v) baseDir =
     (if \<not> HasSuffix v ''.enc'' then ([], Inr (VStr v)) else decryptValue w v baseDir)"
| "decryptValues w VNil baseDir = ([], Inr VNil)"
| "decryptValues w (VBool b) baseDir = ([], Inr (VBool b))"
| "decryptValues w (VInt i) baseDir = ([], Inr (VInt i))"
| "decryptValues w (VOther x) baseDir = ([], Inr (VOther x))"
| "decryptValues w (VAnyMap m) baseDir = ([], Inr (VAnyMap m))"
| "decryptKeys w v baseDir [] result = ([], Inr (VMap result))"
| "decryptKeys w v baseDir (key # keys) result =
     (case decryptValues w (index v key) baseDir of
        (calls, Inl err) \<Rightarrow> (calls, Inl err)
      | (calls, Inr processedValue) \<Rightarrow>
          (case decryptKeys w v baseDir keys
                  (AList.update (TrimSuffix key ''.enc'') processedValue result) of
             (calls', r) \<Rightarrow> (calls @ calls', r)))"
| "decryptItems w [] baseDir = ([], Inr [])"
| "decryptItems w (x # xs) baseDir =
     (case decryptValues w x baseDir of
        (calls, Inl err) \<Rightarrow> (calls, Inl err)
      | (calls, Inr processedValue) \<Rightarrow>
          (case decryptItems w xs baseDir of
             (calls', Inl err) \<Rightarrow> (calls @ calls', Inl err)
           | (calls', Inr result) \<Rightarrow> (calls @ calls', Inr (processedValue # result))))"
  by pat_completeness auto

termination
proof (relation "measures
     [\<lambda>a. case a of Inl (w, n, b) \<Rightarrow> size n
               | Inr (Inl (w, v, b, keys, r)) \<Rightarrow> size (VMap v)
               | Inr (Inr (w, xs, b)) \<Rightarrow> size (VList xs),
      \<lambda>a. case a of Inl (w, n, b) \<Rightarrow> Suc (case n of VMap v \<Rightarrow> length v | VList xs \<Rightarrow> length xs | _ \<Rightarrow> 0)
               | Inr (Inl (w, v, b, keys, r)) \<Rightarrow> length keys
               | Inr (Inr (w, xs, b)) \<Rightarrow> length xs]", goal_cases)
  case (4 w v baseDir key keys result)
  have "size (index v key) < Suc (size_list (size_prod (\<lambda>_. 0) size) v)"
  proof (cases "map_of v key")
    case None
    then show ?thesis by (simp add: index_def)
  next
    case (Some x)
    then have "(key, x) \<in> set v" by (rule map_of_SomeD)
    then have "size x < Suc (size_list (size_prod (\<lambda>_. 0) size) v)"
      by (induction v) auto
    with Some show ?thesis by (simp add: index_def)
  qed
  then show ?case by simp
qed simp_all

subsection \<open>Reading and merging values files (internal/values/loader.go)\<close>

text \<open>
  \<open>readValuesFile\<close>. In the branch of a remote path the source declares a second
  \<^verbatim>\<open>err\<close> with \<^verbatim>\<open>src, err := l.sourceFactory.New(path)\<close>; the assignment
  \<^verbatim>\<open>data, err = src.Fetch(ctx)\<close> that follows writes that inner variable, and the
  \<^verbatim>\<open>err\<close> tested after the branch is the outer one, which is still nil. \<open>fetched\<close>
  is the data, the outer \<^verbatim>\<open>err\<close> and \<^verbatim>\<open>baseDir\<close> after the branch, or the early return.
\<close>

definition fetched :: "world \<Rightarrow> string \<Rightarrow> error + (string \<times> error option \<times> string)" where
  "fetched w path =
     (if ParseScheme path = ''local'' then
        (case ReadFile w path of
           Inl err \<Rightarrow> Inr ([], Some err, Dir w path)
         | Inr data \<Rightarrow> Inr (data, None, Dir w path))
      else
        (case Factory_New (URLParse w) path of
           Inl err \<Rightarrow> Inl err
         | Inr src \<Rightarrow>
             (case SourceFetch w src of
                (data, innerErr) \<Rightarrow> Inr (data, None, []))))"

definition readValuesFile :: "world \<Rightarrow> string \<Rightarrow> error + (string \<times> node) list" where
  "readValuesFile w path =
     (if path = [] then Inl (Err ''values file path is empty'')
      else case fetched w path of
        Inl err \<Rightarrow> Inl err
      | Inr (data, Some err, baseDir) \<Rightarrow>
          (if errorsIsNotExist err then Inl err
           else Inl (Wrap (''read values file '' @ path) err))
      | Inr (data, None, baseDir) \<Rightarrow>
          (case Expand (EnvTable w) data of
             Inl err \<Rightarrow> Inl (Wrap (''expand environment in '' @ path) err)
           | Inr expanded \<Rightarrow>
               (case UnmarshalMap w expanded of
                  Inl err \<Rightarrow> Inl (Wrap (''decode yaml '' @ path) err)
                | Inr decoded \<Rightarrow>
                    (case snd (decryptValues w (VMap decoded) baseDir) of
                       Inl err \<Rightarrow> Inl (Wrap (''decrypt secrets in '' @ path) err)
                     | Inr (VMap result) \<Rightarrow> Inr result
                     | Inr _ \<Rightarrow>
                         Inl (Err (''values file '' @ path @ '' must decode to an object''))))))"

text \<open>The loop of \<open>Load\<close> over the extra files, and \<open>Load\<close>.\<close>

fun mergeFiles ::
  "world \<Rightarrow> (string \<times> node) list \<Rightarrow> string list \<Rightarrow> error + (string \<times> node) list" where
  "mergeFiles w baseValues [] = Inr baseValues"
| "mergeFiles w baseValues (file # extraFiles) =
     (case readValuesFile w file of
        Inl err \<Rightarrow> Inl err
      | Inr data \<Rightarrow>
          (case Merge w baseValues data of
             Inl err \<Rightarrow> Inl (Wrap (''merge values from '' @ file) err)
           | Inr merged \<Rightarrow> mergeFiles w merged extraFiles))"

definition Load :: "world \<Rightarrow> string \<Rightarrow> string list \<Rightarrow> error + (string \<times> node) list" where
  "Load w chartPath extraFiles =
     (let chartPath = (if chartPath = [] then ''.'' else chartPath) in
      case readValuesFile w (Join w chartPath ''values.yaml'') of
        Inl err \<Rightarrow>
          (if \<not> errorsIsNotExist err then Inl err else mergeFiles w [] extraFiles)
      | Inr baseValues \<Rightarrow> mergeFiles w baseValues extraFiles)"

section \<open>The merge engine\<close>

text \<open>
  Modelled from the spec: the merge itself is \<^verbatim>\<open>mergo.Merge\<close> with \<^verbatim>\<open>mergo.WithOverride\<close>, a
  library whose code is not part of the sources; only its call in \<open>Load\<close> is. Section 4.6
  of the specification: deep merge with override. Scalar and list values of the incoming
  tree replace the value at the same path of the accumulator; mappings merge key by key,
  recursively; a key present only in the incoming tree is added; a key present only in the
  accumulator is preserved; where the types at a shared key differ the incoming value wins.
  The two kinds of Go map are mappings, each merged with its own kind; a map with string
  keys and a map with keys of any type are values of different types.
\<close>

fun merge :: "node \<Rightarrow> node \<Rightarrow> node" where
  "merge (VMap accumulator) (VMap incoming) =
     VMap (map (\<lambda>(k, a). (k, case map_of incoming k of None \<Rightarrow> a | Some b \<Rightarrow> merge a b))
             accumulator
           @ filter (\<lambda>(k, b). map_of accumulator k = None) incoming)"
| "merge (VAnyMap accumulator) (VAnyMap incoming) =
     VAnyMap (map (\<lambda>(k, a). (k, case map_of incoming k of None \<Rightarrow> a | Some b \<Rightarrow> merge a b))
                accumulator
              @ filter (\<lambda>(k, b). map_of accumulator k = None) incoming)"
| "merge accumulator incoming = incoming"


text \<open>
  What the statements below speak of. \<open>strings_of\<close> and \<open>keys_of\<close> are the string values
  and the mapping keys of a tree at every depth, inside the maps with keys of any type
  too. The tree decryptor walks lists and maps with string keys only: \<open>walked_strings\<close>
  and \<open>walked_keys\<close> are the string values and the keys it reaches, and
  \<open>unwalked_keys\<close> are the keys inside the maps with keys of any type that it meets and
  returns as they are. \<open>wf_node\<close> holds of the trees whose walked part a Go value can be:
  no key bound twice in one map.
\<close>

fun strings_of :: "node \<Rightarrow> string set" where
  "strings_of (VStr s) = {s}"
| "strings_of (VList xs) = (\<Union>x\<in>set xs. strings_of x)"
| "strings_of (VMap kvs) = (\<Union>(k, x)\<in>set kvs. strings_of x)"
| "strings_of (VAnyMap kvs) = (\<Union>(k, x)\<in>set kvs. strings_of x)"
| "strings_of _ = {}"

fun key_text :: "node \<Rightarrow> string set" where
  "key_text (VStr s) = {s}"
| "key_text _ = {}"

fun keys_of :: "node \<Rightarrow> string set" where
  "keys_of (VList xs) = (\<Union>x\<in>set xs. keys_of x)"
| "keys_of (VMap kvs) = (\<Union>(k, x)\<in>set kvs. insert k (keys_of x))"
| "keys_of (VAnyMap kvs) = (\<Union>(k, x)\<in>set kvs. key_text k \<union> keys_of x)"
| "keys_of _ = {}"

fun walked_strings :: "node \<Rightarrow> string set" where
  "walked_strings (VStr s) = {s}"
| "walked_strings (VList xs) = (\<Union>x\<in>set xs. walked_strings x)"
| "walked_strings (VMap kvs) = (\<Union>(k, x)\<in>set kvs. walked_strings x)"
| "walked_strings _ = {}"

fun walked_keys :: "node \<Rightarrow> string set" where
  "walked_keys (VList xs) = (\<Union>x\<in>set xs. walked_keys x)"
| "walked_keys (VMap kvs) = (\<Union>(k, x)\<in>set kvs. insert k (walked_keys x))"
| "walked_keys _ = {}"

fun unwalked_keys :: "node \<Rightarrow> string set" where
  "unwalked_keys (VList xs) = (\<Union>x\<in>set xs. unwalked_keys x)"
| "unwalked_keys (VMap kvs) = (\<Union>(k, x)\<in>set kvs. unwalked_keys x)"
| "unwalked_keys (VAnyMap kvs) = keys_of (VAnyMap kvs)"
| "unwalked_keys _ = {}"

fun wf_node :: "node \<Rightarrow> bool" where
  "wf_node (VList xs) = (\<forall>x\<in>set xs. wf_node x)"
| "wf_node (VMap kvs) = (distinct (map fst kvs) \<and> (\<forall>(k, x)\<in>set kvs. wf_node x))"
| "wf_node _ = True"

text \<open>
  A concrete world for the examples: \<^verbatim>\<open>sops -d\<close> prints \<^verbatim>\<open>secret123\<close> and a newline for
  every path, the YAML decoder reads a document as a plain string scalar and the empty
  document as the empty mapping, paths are Unix paths, no local file exists, every remote
  fetch fails, and the merge is the merge of the specification.
\<close>

definition isSpace :: "char \<Rightarrow> bool" where
  "isSpace c = (c \<in> set [CHR '' '', CHR 0x09, CHR 0x0A, CHR 0x0D])"

definition mergeMaps ::
  "(string \<times> node) list \<Rightarrow> (string \<times> node) list \<Rightarrow> error + (string \<times> node) list" where
  "mergeMaps accumulator incoming =
     (case merge (VMap accumulator) (VMap incoming) of VMap m \<Rightarrow> Inr m | _ \<Rightarrow> Inr incoming)"

definition exampleWorld :: world where
  "exampleWorld =
     \<lparr> CombinedOutput = (\<lambda>path. (''secret123'' @ [CHR 0x0A], None)),
       Unmarshal = (\<lambda>s. Inr (VStr s)),
       UnmarshalMap = (\<lambda>s. if s = [] then Inr [] else Inl (Err ''yaml: unmarshal errors'')),
       TrimSpace = (\<lambda>s. rev (dropWhile isSpace (rev (dropWhile isSpace s)))),
       IsAbs = (\<lambda>p. HasPrefix p ''/''),
       Join = (\<lambda>a b. a @ ''/'' @ b),
       Dir = (\<lambda>p. ''.''),
       ReadFile = (\<lambda>p. Inl ErrNotExist),
       URLParse = (\<lambda>raw. Inr \<lparr>Scheme = ''s3'', Host = ''bucket'', Path = ''/values.yaml'',
                                Fragment = []\<rparr>),
       SourceFetch = (\<lambda>src. ([], Some (Err ''access denied''))),
       Merge = mergeMaps,
       EnvTable = Map.empty \<rparr>"

text \<open>
  The same world with local files: \<open>files\<close> maps a path to its content or to the error of
  reading it, and \<open>docs\<close> maps a document to the mapping it decodes to.
\<close>

definition fileWorld ::
  "(string \<rightharpoonup> error + string) \<Rightarrow> (string \<rightharpoonup> (string \<times> node) list) \<Rightarrow> world" where
  "fileWorld files docs =
     exampleWorld
       \<lparr> ReadFile := (\<lambda>p. case files p of None \<Rightarrow> Inl ErrNotExist | Some r \<Rightarrow> r),
         UnmarshalMap := (\<lambda>s. case docs s of None \<Rightarrow> Inl (Err ''yaml: unmarshal errors'')
                                | Some m \<Rightarrow> Inr m) \<rparr>"

text \<open>A git world in which the anonymous clone is refused and a clone with credentials
  succeeds, and a git source.\<close>

definition exampleGitWorld :: "(string \<rightharpoonup> string) \<Rightarrow> (unit, unit, unit) gitWorld" where
  "exampleGitWorld env =
     \<lparr> Environ = env,
       TempDir = ''/tmp/tmpl-git-0'',
       URLString = (\<lambda>u. Scheme u @ ''://'' @ Host u),
       PlainCloneContext = (\<lambda>fs dir raw auth.
          (fs, case auth of None \<Rightarrow> Inl (Err ''authentication required'') | Some a \<Rightarrow> Inr ())),
       Worktree = (\<lambda>repo. Inr ()),
       Checkout = (\<lambda>fs wt opts. (fs, None)),
       JoinPath = (\<lambda>a b. a @ ''/'' @ b),
       ReadFileIn = (\<lambda>fs p. Inr ''a: 1'') \<rparr>"

definition exampleGitSource :: gitSource where
  "exampleGitSource =
     \<lparr> gurl = \<lparr>Scheme = ''https'', Host = ''example.com'', Path = [], Fragment = []\<rparr>,
       gsubdir = ''values.yaml'',
       gref = [],
       gpath = ''git+https://example.com/values.yaml'' \<rparr>"

text \<open>
  The paths under which the walked strings of a tree that end in \<open>.enc\<close> reach
  \<open>DecryptFile\<close>, and the conditions the statement on output keys needs.
\<close>

definition encPaths :: "world \<Rightarrow> string \<Rightarrow> node \<Rightarrow> string set" where
  "encPaths w baseDir x =
     (\<lambda>s. resolvePath w s baseDir) ` {s \<in> walked_strings x. HasSuffix s ''.enc''}"

definition noEncKeys :: "node \<Rightarrow> bool" where
  "noEncKeys x = (\<forall>k\<in>keys_of x. \<not> HasSuffix k ''.enc'')"

definition cleanInput :: "world \<Rightarrow> string \<Rightarrow> node \<Rightarrow> bool" where
  "cleanInput w baseDir x =
     ((\<forall>k\<in>walked_keys x. \<not> HasSuffix k ''.enc.enc'') \<and>
      (\<forall>k\<in>unwalked_keys x. \<not> HasSuffix k ''.enc'') \<and>
      (\<forall>s\<in>walked_strings x. HasSuffix s ''.enc'' \<longrightarrow>
         (\<forall>pv. snd (decryptValue w s baseDir) = Inr pv \<longrightarrow> noEncKeys pv)))"

section \<open>Facts about the string helpers and the key loop\<close>

lemma HasSuffix_iff: "HasSuffix s suf \<longleftrightarrow> (\<exists>p. s = p @ suf)"
proof
  assume "HasSuffix s suf"
  then have "s = take (length s - length suf) s @ suf"
    unfolding HasSuffix_def by (metis append_take_drop_id)
  then show "\<exists>p. s = p @ suf" ..
next
  assume "\<exists>p. s = p @ suf"
  then show "HasSuffix s suf" by (auto simp: HasSuffix_def)
qed

lemma HasSuffix_append [simp]: "HasSuffix (k @ suf) suf"
  by (simp add: HasSuffix_def)

lemma TrimSuffix_append [simp]: "TrimSuffix (k @ suf) suf = k"
  by (simp add: TrimSuffix_def)

lemma TrimSuffix_cases:
  "(HasSuffix s suf \<and> s = TrimSuffix s suf @ suf) \<or> (\<not> HasSuffix s suf \<and> TrimSuffix s suf = s)"
  by (auto simp: TrimSuffix_def HasSuffix_iff)

lemma le_append_self: "(k :: string) \<le> k @ s"
  by (cases s) (auto simp: list_le_def list_less_def lexord_append_rightI)

lemma fold_upd_last:
  "fold (\<lambda>key m. m(g key \<mapsto> h key)) keys m0 k =
     (case filter (\<lambda>key. g key = k) keys of [] \<Rightarrow> m0 k | x # xs \<Rightarrow> Some (h (last (x # xs))))"
  by (induction keys arbitrary: m0) (auto split: list.splits)

lemma sorted_le_last: "sorted xs \<Longrightarrow> x \<in> set xs \<Longrightarrow> x \<le> last xs"
  by (induction xs) (auto)

lemma last_filter_enc:
  assumes "sorted keys" and "k @ ''.enc'' \<in> set keys"
  shows "last (filter (\<lambda>key. TrimSuffix key ''.enc'' = k) keys) = k @ ''.enc''"
proof -
  let ?ks = "filter (\<lambda>key. TrimSuffix key ''.enc'' = k) keys"
  have mem: "k @ ''.enc'' \<in> set ?ks" using assms(2) by simp
  have srt: "sorted ?ks" using assms(1) by (rule sorted_wrt_filter)
  have ub: "x \<le> k @ ''.enc''" if "x \<in> set ?ks" for x
  proof -
    from that have "TrimSuffix x ''.enc'' = k" by simp
    with TrimSuffix_cases [of x "''.enc''"] have "x = k @ ''.enc'' \<or> x = k" by auto
    then show ?thesis using le_append_self by auto
  qed
  have "?ks \<noteq> []" using length_pos_if_in_set [OF mem] by (simp del: length_filter_le)
  then have "last ?ks \<in> set ?ks" by (rule last_in_set)
  then have "last ?ks \<le> k @ ''.enc''" by (rule ub)
  moreover have "k @ ''.enc'' \<le> last ?ks" using srt mem by (rule sorted_le_last)
  ultimately show ?thesis by simp
qed

lemma decryptKeys_Inr:
  "snd (decryptKeys w v b keys result) = Inr out \<Longrightarrow>
     \<exists>r. out = VMap r \<and>
       (\<forall>key\<in>set keys. \<exists>pv. snd (decryptValues w (index v key) b) = Inr pv) \<and>
       (distinct (map fst result) \<longrightarrow> distinct (map fst r)) \<and>
       map_of r = fold (\<lambda>key m. m(TrimSuffix key ''.enc'' \<mapsto>
                          projr (snd (decryptValues w (index v key) b)))) keys (map_of result)"
proof (induction keys arbitrary: result)
  case Nil
  then show ?case by auto
next
  case (Cons key keys)
  let ?res = "decryptValues w (index v key) b"
  from Cons.prems obtain pv where pv: "snd ?res = Inr pv"
    by (cases "snd ?res") (auto split: prod.splits)
  let ?result' = "AList.update (TrimSuffix key ''.enc'') pv result"
  from Cons.prems pv have "snd (decryptKeys w v b keys ?result') = Inr out"
    by (auto split: prod.splits sum.splits)
  from Cons.IH [OF this] obtain r where r: "out = VMap r"
    "\<forall>key\<in>set keys. \<exists>pv. snd (decryptValues w (index v key) b) = Inr pv"
    "distinct (map fst ?result') \<longrightarrow> distinct (map fst r)"
    "map_of r = fold (\<lambda>key m. m(TrimSuffix key ''.enc'' \<mapsto>
                          projr (snd (decryptValues w (index v key) b)))) keys (map_of ?result')"
    by blast
  have "out = VMap r" by fact
  moreover have "\<forall>key\<in>set (key # keys). \<exists>pv. snd (decryptValues w (index v key) b) = Inr pv"
    using r(2) pv by simp
  moreover have "distinct (map fst result) \<longrightarrow> distinct (map fst r)"
    using r(3) by (simp add: AList.distinct_update)
  moreover have "map_of r = fold (\<lambda>key m. m(TrimSuffix key ''.enc'' \<mapsto>
                          projr (snd (decryptValues w (index v key) b)))) (key # keys) (map_of result)"
    using r(4) pv by (simp add: AList.update_conv')
  ultimately show ?case by blast
qed

lemma decryptKeys_succeeds:
  "\<forall>key\<in>set keys. \<exists>pv. snd (decryptValues w (index v key) b) = Inr pv \<Longrightarrow>
     \<exists>out. snd (decryptKeys w v b keys result) = Inr out"
proof (induction keys arbitrary: result)
  case Nil
  then show ?case by simp
next
  case (Cons key keys)
  then obtain pv where pv: "snd (decryptValues w (index v key) b) = Inr pv" by auto
  from Cons obtain out where
    "snd (decryptKeys w v b keys (AList.update (TrimSuffix key ''.enc'') pv result)) = Inr out"
    by fastforce
  with pv show ?case by (auto split: prod.splits sum.splits)
qed

lemma decryptValues_enc_key:
  assumes ok: "snd (decryptValues w (VMap v) b) = Inr out"
    and mem: "k @ ''.enc'' \<in> fst ` set v"
  shows "\<exists>r pv. out = VMap r \<and> distinct (map fst r) \<and>
           snd (decryptValues w (index v (k @ ''.enc'')) b) = Inr pv \<and> map_of r k = Some pv"
proof -
  let ?keys = "sort (map fst v)"
  let ?h = "\<lambda>key. projr (snd (decryptValues w (index v key) b))"
  from ok have "snd (decryptKeys w v b ?keys []) = Inr out" by simp
  from decryptKeys_Inr [OF this] obtain r where r: "out = VMap r"
    "\<forall>key\<in>set ?keys. \<exists>pv. snd (decryptValues w (index v key) b) = Inr pv"
    "distinct (map fst r)"
    "map_of r = fold (\<lambda>key m. m(TrimSuffix key ''.enc'' \<mapsto> ?h key)) ?keys (map_of [])"
    by auto
  have mem': "k @ ''.enc'' \<in> set ?keys" using mem by simp
  from r(2) mem' obtain pv where pv: "snd (decryptValues w (index v (k @ ''.enc'')) b) = Inr pv"
    by blast
  let ?ks = "filter (\<lambda>key. TrimSuffix key ''.enc'' = k) ?keys"
  have last: "last ?ks = k @ ''.enc''" by (rule last_filter_enc [OF sorted_sort mem'])
  have "k @ ''.enc'' \<in> set ?ks" using mem' by simp
  then have ne: "?ks \<noteq> []" using length_pos_if_in_set by (fastforce simp del: length_filter_le)
  then obtain x xs where xs: "?ks = x # xs" by (cases ?ks) auto
  have "map_of r k = Some (?h (last ?ks))"
    unfolding r(4) fold_upd_last [where g = "\<lambda>key. TrimSuffix key ''.enc''"] xs by simp
  with last pv have "map_of r k = Some pv" by simp
  with r(1,3) pv show ?thesis by blast
qed

lemma decryptValues_no_enc_key:
  assumes ok: "snd (decryptValues w (VMap v) b) = Inr (VMap r)"
    and nomem: "k' @ ''.enc'' \<notin> fst ` set v" and k': "HasSuffix k' ''.enc''"
  shows "map_of r k' = None"
proof -
  let ?keys = "sort (map fst v)"
  let ?h = "\<lambda>key. projr (snd (decryptValues w (index v key) b))"
  from ok have "snd (decryptKeys w v b ?keys []) = Inr (VMap r)" by simp
  from decryptKeys_Inr [OF this] have r:
    "map_of r = fold (\<lambda>key m. m(TrimSuffix key ''.enc'' \<mapsto> ?h key)) ?keys (map_of [])"
    by auto
  have "filter (\<lambda>key. TrimSuffix key ''.enc'' = k') ?keys = []"
  proof (rule ccontr)
    assume "\<not> ?thesis"
    then obtain key where key: "key \<in> set ?keys" "TrimSuffix key ''.enc'' = k'"
      by (auto simp: filter_empty_conv)
    with TrimSuffix_cases [of key "''.enc''"] have "key = k' @ ''.enc'' \<or> \<not> HasSuffix k' ''.enc''"
      by auto
    with k' key(1) nomem show False by auto
  qed
  then show ?thesis unfolding r fold_upd_last [where g = "\<lambda>key. TrimSuffix key ''.enc''"] by simp
qed

lemmas ex_simps = index_def TrimSuffix_def HasSuffix_def decryptValue_def resolvePath_def
  DecryptFile_def exampleWorld_def HasPrefix_def isSpace_def

lemma fst_decryptValue: "fst (decryptValue w s b) = [resolvePath w s b]"
  by (simp add: decryptValue_def Let_def split: sum.splits)

lemma index_cases: "index v key = VNil \<or> (key, index v key) \<in> set v"
  by (auto simp: index_def split: option.splits dest: map_of_SomeD)

lemma encPaths_simps [simp]:
  "encPaths w b VNil = {}" "encPaths w b (VBool t) = {}" "encPaths w b (VInt i) = {}"
  "encPaths w b (VOther y) = {}" "encPaths w b (VAnyMap m) = {}"
  "encPaths w b (VStr s) = (if HasSuffix s ''.enc'' then {resolvePath w s b} else {})"
  "encPaths w b (VList xs) = (\<Union>x\<in>set xs. encPaths w b x)"
  "encPaths w b (VMap kvs) = (\<Union>(k, x)\<in>set kvs. encPaths w b x)"
  by (auto simp: encPaths_def)

lemma encPaths_index_subset: "encPaths w b (index v key) \<subseteq> encPaths w b (VMap v)"
  using index_cases [of v key] by auto

lemma encPaths_sorted_keys:
  "(\<Union>key\<in>set (sort (map fst v)). encPaths w b (index v key)) \<subseteq> encPaths w b (VMap v)"
  using encPaths_index_subset by fastforce

lemma encPaths_sorted_keys_eq:
  assumes "distinct (map fst v)"
  shows "(\<Union>key\<in>set (sort (map fst v)). encPaths w b (index v key)) = encPaths w b (VMap v)"
proof
  show "(\<Union>key\<in>set (sort (map fst v)). encPaths w b (index v key)) \<subseteq> encPaths w b (VMap v)"
    by (rule encPaths_sorted_keys)
  show "encPaths w b (VMap v) \<subseteq> (\<Union>key\<in>set (sort (map fst v)). encPaths w b (index v key))"
  proof
    fix p assume "p \<in> encPaths w b (VMap v)"
    then obtain k x where kx: "(k, x) \<in> set v" "p \<in> encPaths w b x" by auto
    with assms have "index v k = x" by (simp add: index_def)
    moreover from kx have "k \<in> set (sort (map fst v))" by force
    ultimately show "p \<in> (\<Union>key\<in>set (sort (map fst v)). encPaths w b (index v key))"
      using kx(2) by blast
  qed
qed

lemma wf_index: "wf_node (VMap v) \<Longrightarrow> wf_node (index v key)"
  using index_cases [of v key] by auto

lemma calls_mutual:
  "set (fst (decryptValues w node b)) \<subseteq> encPaths w b node \<and>
     (wf_node node \<longrightarrow> (\<exists>out. snd (decryptValues w node b) = Inr out) \<longrightarrow>
        set (fst (decryptValues w node b)) = encPaths w b node)"
  "set (fst (decryptKeys w v b keys result)) \<subseteq> (\<Union>key\<in>set keys. encPaths w b (index v key)) \<and>
     ((\<forall>key\<in>set keys. wf_node (index v key)) \<longrightarrow>
      (\<exists>out. snd (decryptKeys w v b keys result) = Inr out) \<longrightarrow>
        set (fst (decryptKeys w v b keys result)) = (\<Union>key\<in>set keys. encPaths w b (index v key)))"
  "set (fst (decryptItems w xs b)) \<subseteq> (\<Union>x\<in>set xs. encPaths w b x) \<and>
     ((\<forall>x\<in>set xs. wf_node x) \<longrightarrow> (\<exists>outs. snd (decryptItems w xs b) = Inr outs) \<longrightarrow>
        set (fst (decryptItems w xs b)) = (\<Union>x\<in>set xs. encPaths w b x))"
proof (induction w node b and w v b keys result and w xs b
    rule: decryptValues_decryptKeys_decryptItems.induct)
  case (1 w v baseDir)
  have wf: "wf_node (VMap v) \<Longrightarrow> \<forall>key\<in>set (sort (map fst v)). wf_node (index v key)"
    using wf_index by blast
  show ?case
    using 1 encPaths_sorted_keys [where v=v and w=w and b=baseDir] wf
    by (auto simp only: decryptValues.simps encPaths_sorted_keys_eq wf_node.simps)
next
  case (2 w v baseDir)
  then show ?case by (auto split: prod.splits sum.splits)
next
  case (3 w v baseDir)
  then show ?case by (simp add: fst_decryptValue)
next
  case (10 w v baseDir key keys result)
  obtain c y where res: "decryptValues w (index v key) baseDir = (c, y)" by fastforce
  show ?case
  proof (cases y)
    case (Inl e)
    with res 10(1) show ?thesis by auto
  next
    case (Inr pv)
    obtain c' r where rest: "decryptKeys w v baseDir keys
        (AList.update (TrimSuffix key ''.enc'') pv result) = (c', r)" by fastforce
    from 10(2) [OF res [symmetric] Inr] rest 10(1) res Inr show ?thesis
      by (auto simp del: encPaths_simps)
  qed
next
  case (12 w x xs baseDir)
  obtain c y where res: "decryptValues w x baseDir = (c, y)" by fastforce
  show ?case
  proof (cases y)
    case (Inl e)
    with res 12(1) show ?thesis by auto
  next
    case (Inr pv)
    obtain c' r where rest: "decryptItems w xs baseDir = (c', r)" by fastforce
    from 12(2) [OF res [symmetric] Inr] rest 12(1) res Inr show ?thesis
      by (cases r) (auto simp del: encPaths_simps)
  qed
qed simp_all

lemma cleanInput_index: "cleanInput w b (VMap v) \<Longrightarrow> cleanInput w b (index v key)"
  using index_cases [of v key] by (fastforce simp: cleanInput_def)

lemma cleanInput_key:
  "cleanInput w b (VMap v) \<Longrightarrow> key \<in> fst ` set v \<Longrightarrow> \<not> HasSuffix key ''.enc.enc''"
  by (fastforce simp: cleanInput_def)

lemma cleanInput_item: "cleanInput w b (VList xs) \<Longrightarrow> x \<in> set xs \<Longrightarrow> cleanInput w b x"
  by (fastforce simp: cleanInput_def)

lemma TrimSuffix_not_enc:
  assumes "\<not> HasSuffix key ''.enc.enc''"
  shows "\<not> HasSuffix (TrimSuffix key ''.enc'') ''.enc''"
proof
  assume h: "HasSuffix (TrimSuffix key ''.enc'') ''.enc''"
  show False
  proof (cases "HasSuffix key ''.enc''")
    case True
    with TrimSuffix_cases [of key "''.enc''"] have key: "key = TrimSuffix key ''.enc'' @ ''.enc''"
      by auto
    from h obtain p where "TrimSuffix key ''.enc'' = p @ ''.enc''" by (auto simp: HasSuffix_iff)
    with key have "key = p @ ''.enc.enc''" by simp
    with assms show False by (simp add: HasSuffix_iff)
  next
    case False
    with h show False by (simp add: TrimSuffix_def)
  qed
qed

lemma noEncKeys_update:
  "noEncKeys (VMap al) \<Longrightarrow> noEncKeys x \<Longrightarrow> \<not> HasSuffix k ''.enc'' \<Longrightarrow>
     noEncKeys (VMap (AList.update k x al))"
  by (induction al) (auto simp: noEncKeys_def)

lemma noEncKeys_mutual:
  "cleanInput w b node \<Longrightarrow> snd (decryptValues w node b) = Inr out \<Longrightarrow> noEncKeys out"
  "(\<forall>key\<in>set keys. \<not> HasSuffix key ''.enc.enc'' \<and> cleanInput w b (index v key)) \<Longrightarrow>
     noEncKeys (VMap result) \<Longrightarrow> snd (decryptKeys w v b keys result) = Inr out \<Longrightarrow> noEncKeys out"
  "(\<forall>x\<in>set xs. cleanInput w b x) \<Longrightarrow> snd (decryptItems w xs b) = Inr outs \<Longrightarrow>
     noEncKeys (VList outs)"
proof (induction w node b and w v b keys result and w xs b arbitrary: out and out and outs
    rule: decryptValues_decryptKeys_decryptItems.induct)
  case (1 w v baseDir)
  have "\<forall>key\<in>set (sort (map fst v)). \<not> HasSuffix key ''.enc.enc'' \<and> cleanInput w baseDir (index v key)"
    using cleanInput_index [OF 1(2)] cleanInput_key [OF 1(2)] by simp
  moreover have "noEncKeys (VMap [])" by (simp add: noEncKeys_def)
  ultimately show ?case using 1(1) 1(3) by simp
next
  case (2 w v baseDir)
  have "\<forall>x\<in>set v. cleanInput w baseDir x" using cleanInput_item [OF 2(2)] by blast
  with 2(1) 2(3) show ?case by (auto split: prod.splits sum.splits)
next
  case (3 w v baseDir)
  then show ?case by (auto simp: cleanInput_def noEncKeys_def split: if_splits)
next
  case (10 w v baseDir key keys result)
  obtain c y where res: "decryptValues w (index v key) baseDir = (c, y)" by fastforce
  with 10(5) obtain pv where pv: "y = Inr pv" by (cases y) auto
  from 10(1) [of pv] 10(3) res pv have npv: "noEncKeys pv" by simp
  have "noEncKeys (VMap (AList.update (TrimSuffix key ''.enc'') pv result))"
    using 10(3) 10(4) npv by (intro noEncKeys_update TrimSuffix_not_enc) auto
  moreover have "snd (decryptKeys w v baseDir keys
      (AList.update (TrimSuffix key ''.enc'') pv result)) = Inr out"
    using 10(5) res pv by (auto split: prod.splits)
  ultimately show ?case using 10(2) [OF res [symmetric] pv] 10(3) by simp
next
  case (12 w x xs baseDir)
  obtain c y where res: "decryptValues w x baseDir = (c, y)" by fastforce
  with 12(4) obtain pv where pv: "y = Inr pv" by (cases y) auto
  from 12(1) [of pv] 12(3) res pv have npv: "noEncKeys pv" by simp
  obtain c' r where rest: "decryptItems w xs baseDir = (c', r)" by fastforce
  with 12(4) res pv obtain ps where ps: "r = Inr ps" "outs = pv # ps" by (cases r) auto
  from 12(2) [OF res [symmetric] pv, of ps] 12(3) rest ps have "noEncKeys (VList ps)" by simp
  with npv ps show ?case by (auto simp: noEncKeys_def)
next
  case (8 w m baseDir)
  then show ?case by (auto simp: noEncKeys_def cleanInput_def)
qed (auto simp: noEncKeys_def)




lemma fst_decryptValue_error:
  "snd (decryptValue w s b) = Inl e \<Longrightarrow> \<exists>e'. DecryptFile w (resolvePath w s b) = Inl e'"
  by (auto simp: decryptValue_def Let_def split: sum.splits if_splits)

lemma error_mutual:
  "snd (decryptValues w node b) = Inl e \<Longrightarrow>
     fst (decryptValues w node b) \<noteq> [] \<and>
     (\<exists>e'. DecryptFile w (last (fst (decryptValues w node b))) = Inl e')"
  "snd (decryptKeys w v b keys result) = Inl e \<Longrightarrow>
     fst (decryptKeys w v b keys result) \<noteq> [] \<and>
     (\<exists>e'. DecryptFile w (last (fst (decryptKeys w v b keys result))) = Inl e')"
  "snd (decryptItems w xs b) = Inl e \<Longrightarrow>
     fst (decryptItems w xs b) \<noteq> [] \<and>
     (\<exists>e'. DecryptFile w (last (fst (decryptItems w xs b))) = Inl e')"
proof (induction w node b and w v b keys result and w xs b
    rule: decryptValues_decryptKeys_decryptItems.induct)
  case (1 w v baseDir)
  then show ?case by simp
next
  case (2 w v baseDir)
  then show ?case by (auto split: prod.splits sum.splits)
next
  case (3 w v baseDir)
  then show ?case
    using fst_decryptValue [of w v baseDir] fst_decryptValue_error [of w v baseDir e]
    by (auto split: if_splits)
next
  case (10 w v baseDir key keys result)
  obtain c y where res: "decryptValues w (index v key) baseDir = (c, y)" by fastforce
  show ?case
  proof (cases y)
    case (Inl e1)
    with res 10(1) 10(3) show ?thesis by auto
  next
    case (Inr pv)
    obtain c' r where rest: "decryptKeys w v baseDir keys
        (AList.update (TrimSuffix key ''.enc'') pv result) = (c', r)" by fastforce
    with 10(3) res Inr have "r = Inl e" by simp
    with 10(2) [OF res [symmetric] Inr] rest
    have "c' \<noteq> [] \<and> (\<exists>e'. DecryptFile w (last c') = Inl e')" by simp
    with res Inr rest show ?thesis by simp
  qed
next
  case (12 w x xs baseDir)
  obtain c y where res: "decryptValues w x baseDir = (c, y)" by fastforce
  show ?case
  proof (cases y)
    case (Inl e1)
    with res 12(1) 12(3) show ?thesis by auto
  next
    case (Inr pv)
    obtain c' r where rest: "decryptItems w xs baseDir = (c', r)" by fastforce
    with 12(3) res Inr have "r = Inl e" by (cases r) auto
    with 12(2) [OF res [symmetric] Inr] rest
    have "c' \<noteq> [] \<and> (\<exists>e'. DecryptFile w (last c') = Inl e')" by simp
    with res Inr rest \<open>r = Inl e\<close> show ?thesis by simp
  qed
qed simp_all

section \<open>Facts about environment expansion\<close>

lemma not_isNameChar_specials [simp]:
  "\<not> isNameChar (CHR ''$'')" "\<not> isNameChar (CHR ''}'')" "\<not> isNameChar (CHR ''{'')"
  by (simp_all add: isNameChar_def)

lemma matchPrefix_SomeD:
  assumes "matchPrefix s = Some (name, rest)"
  shows "s = ''${'' @ name @ ''}'' @ rest \<and> name \<noteq> [] \<and> (\<forall>c\<in>set name. isNameChar c)"
proof -
  let ?t = "drop 2 s"
  from assms have hp: "HasPrefix s ''${''" by (auto simp: matchPrefix_def split: if_splits)
  from assms hp have name: "name = takeWhile isNameChar ?t" "name \<noteq> []"
    and hr: "HasPrefix (dropWhile isNameChar ?t) ''}''"
    and rest: "rest = drop 1 (dropWhile isNameChar ?t)"
    by (auto simp: matchPrefix_def Let_def split: if_splits)
  from hp have "s = ''${'' @ ?t"
    unfolding HasPrefix_def by (metis append_take_drop_id length_Cons list.size(3) numeral_2_eq_2)
  moreover have "?t = name @ dropWhile isNameChar ?t" using name(1) by simp
  moreover from hr have "dropWhile isNameChar ?t = ''}'' @ rest"
    unfolding HasPrefix_def rest
    by (metis One_nat_def append_take_drop_id length_Cons list.size(3))
  ultimately have "s = ''${'' @ name @ ''}'' @ rest" by metis
  moreover have "\<forall>c\<in>set name. isNameChar c" using name(1) by (auto dest: set_takeWhileD)
  ultimately show ?thesis using name(2) by blast
qed

lemma matchPrefix_placeholder:
  assumes "name \<noteq> []" and "\<forall>c\<in>set name. isNameChar c"
  shows "matchPrefix (''${'' @ name @ ''}'' @ rest) = Some (name, rest)"
proof -
  have t: "takeWhile isNameChar (name @ CHR ''}'' # rest) = name"
    using assms(2) by (simp add: takeWhile_tail)
  have d: "dropWhile isNameChar (name @ CHR ''}'' # rest) = CHR ''}'' # rest"
    using assms(2) by (simp add: dropWhile_append3)
  show ?thesis using assms(1) by (simp add: matchPrefix_def HasPrefix_def t d)
qed

lemma matchPrefix_before_dollar:
  assumes "pre \<noteq> []"
  shows "matchPrefix (pre @ CHR ''$'' # xs) =
           (case matchPrefix pre of Some (n, rest) \<Rightarrow> Some (n, rest @ CHR ''$'' # xs) | None \<Rightarrow> None)"
proof (cases pre)
  case Nil
  with assms show ?thesis by simp
next
  case (Cons c1 p1)
  show ?thesis
  proof (cases p1)
    case Nil
    with Cons show ?thesis by (simp add: matchPrefix_def HasPrefix_def)
  next
    case (Cons c2 t)
    have tw: "takeWhile isNameChar (t @ CHR ''$'' # xs) = takeWhile isNameChar t"
      by (simp add: takeWhile_tail)
    have dw: "dropWhile isNameChar (t @ CHR ''$'' # xs) = dropWhile isNameChar t @ CHR ''$'' # xs"
      by (simp add: dropWhile_append3)
    define d where "d = dropWhile isNameChar t"
    have l: "matchPrefix (c1 # c2 # t) =
        (if c1 = CHR ''$'' \<and> c2 = CHR ''{'' then
           if takeWhile isNameChar t \<noteq> [] \<and> HasPrefix d ''}''
           then Some (takeWhile isNameChar t, drop 1 d) else None
         else None)"
      unfolding d_def by (simp add: matchPrefix_def HasPrefix_def Let_def)
    have r: "matchPrefix (c1 # c2 # t @ CHR ''$'' # xs) =
        (if c1 = CHR ''$'' \<and> c2 = CHR ''{'' then
           if takeWhile isNameChar t \<noteq> [] \<and> HasPrefix (d @ CHR ''$'' # xs) ''}''
           then Some (takeWhile isNameChar t, drop 1 (d @ CHR ''$'' # xs)) else None
         else None)"
      unfolding d_def by (simp add: matchPrefix_def HasPrefix_def Let_def tw dw)
    have "HasPrefix (d @ CHR ''$'' # xs) ''}'' = HasPrefix d ''}''"
      by (cases d) (simp_all add: HasPrefix_def)
    moreover have "HasPrefix d ''}'' \<Longrightarrow> drop 1 (d @ CHR ''$'' # xs) = drop 1 d @ CHR ''$'' # xs"
      by (cases d) (simp_all add: HasPrefix_def)
    ultimately show ?thesis
      unfolding \<open>pre = c1 # p1\<close> Cons by (simp add: l r)
  qed
qed

lemma ReplaceAllFunc_append_dollar:
  "ReplaceAllFunc repl (pre @ CHR ''$'' # xs) =
     ReplaceAllFunc repl pre @ ReplaceAllFunc repl (CHR ''$'' # xs)"
proof (induction repl pre rule: ReplaceAllFunc.induct)
  case (1 repl)
  show ?case by simp
next
  case (2 repl c cs)
  show ?case
  proof (cases "matchPrefix (c # cs)")
    case None
    then have "matchPrefix (c # cs @ CHR ''$'' # xs) = None"
      using matchPrefix_before_dollar [of "c # cs" xs] by simp
    with None 2(1) show ?thesis by simp
  next
    case (Some a)
    obtain n rest where a: "a = (n, rest)" by (cases a)
    with Some have "matchPrefix (c # cs @ CHR ''$'' # xs) = Some (n, rest @ CHR ''$'' # xs)"
      using matchPrefix_before_dollar [of "c # cs" xs] by simp
    with Some a 2(2) [OF Some a [symmetric]] show ?thesis by simp
  qed
qed

lemma FindSubmatch_placeholder:
  assumes "name \<noteq> []" and "\<forall>c\<in>set name. isNameChar c"
  shows "FindSubmatch (''${'' @ name @ ''}'') = [''${'' @ name @ ''}'', name]"
  using matchPrefix_placeholder [OF assms, of "[]"] by simp

lemma ReplaceAllFunc_id:
  assumes "\<forall>pre name post. data = pre @ ''${'' @ name @ ''}'' @ post \<and> name \<noteq> [] \<and>
             (\<forall>c\<in>set name. isNameChar c) \<longrightarrow> repl (''${'' @ name @ ''}'') = ''${'' @ name @ ''}''"
  shows "ReplaceAllFunc repl data = data"
  using assms
proof (induction repl data rule: ReplaceAllFunc.induct)
  case (1 repl)
  show ?case by simp
next
  case (2 repl c cs)
  show ?case
  proof (cases "matchPrefix (c # cs)")
    case None
    have "ReplaceAllFunc repl cs = cs"
    proof (rule 2(1) [OF None], intro allI impI)
      fix pre name post
      assume "cs = pre @ ''${'' @ name @ ''}'' @ post \<and> name \<noteq> [] \<and> (\<forall>c\<in>set name. isNameChar c)"
      then have "c # cs = (c # pre) @ ''${'' @ name @ ''}'' @ post \<and> name \<noteq> [] \<and>
          (\<forall>c\<in>set name. isNameChar c)" by simp
      with 2(3) show "repl (''${'' @ name @ ''}'') = ''${'' @ name @ ''}''" by blast
    qed
    with None show ?thesis by simp
  next
    case (Some a)
    obtain n rest where a: "a = (n, rest)" by (cases a)
    from matchPrefix_SomeD [OF Some [unfolded a]]
    have s: "c # cs = ''${'' @ n @ ''}'' @ rest" "n \<noteq> []" "\<forall>c\<in>set n. isNameChar c" by auto
    then have "c # cs = [] @ ''${'' @ n @ ''}'' @ rest \<and> n \<noteq> [] \<and> (\<forall>c\<in>set n. isNameChar c)"
      by simp
    with 2(3) have r1: "repl (''${'' @ n @ ''}'') = ''${'' @ n @ ''}''" by blast
    have "ReplaceAllFunc repl rest = rest"
    proof (rule 2(2) [OF Some a [symmetric]], intro allI impI)
      fix pre name post
      assume "rest = pre @ ''${'' @ name @ ''}'' @ post \<and> name \<noteq> [] \<and> (\<forall>c\<in>set name. isNameChar c)"
      with s(1) have "c # cs = (''${'' @ n @ ''}'' @ pre) @ ''${'' @ name @ ''}'' @ post \<and> name \<noteq> [] \<and>
          (\<forall>c\<in>set name. isNameChar c)" by simp
      with 2(3) show "repl (''${'' @ name @ ''}'') = ''${'' @ name @ ''}''" by blast
    qed
    with Some a r1 s(1) show ?thesis by simp
  qed
qed

lemmas expand_simps = Expand_def matchPrefix_def HasPrefix_def isNameChar_def Let_def

section \<open>Facts about sources, loading and merging\<close>

lemmas git_simps = Fetch_def basicAuthFromEnv_def Getenv_def exampleGitWorld_def
  exampleGitSource_def checkoutAndRead_def readTarget_def Let_def

lemmas load_simps = Load_def readValuesFile_def fetched_def ParseScheme_def Factory_New_def
  newS3Source_def newOCISource_def newGitSource_def TrimPrefix_def HasPrefix_def
  exampleWorld_def fileWorld_def mergeMaps_def Expand_def





text \<open>
  The paths of \<open>Load\<close> and \<open>readValuesFile\<close>: a missing base file is an empty tree, an
  extra file that fails ends the load, a local read error, a decode error and a decrypt
  error are returned, and the error of a remote fetch does not reach the test after the
  branch.
\<close>

lemma mergeFiles_abort:
  "readValuesFile w file = Inl err \<Longrightarrow> mergeFiles w baseValues (file # extraFiles) = Inl err"
  by simp

lemma Load_missing_base:
  assumes "chartPath \<noteq> []" and "readValuesFile w (Join w chartPath ''values.yaml'') = Inl err"
    and "errorsIsNotExist err"
  shows "Load w chartPath extraFiles = mergeFiles w [] extraFiles"
  using assms by (simp add: Load_def)

lemma readValuesFile_local_read_error:
  assumes "path \<noteq> []" and "ParseScheme path = ''local''" and "ReadFile w path = Inl err"
  shows "\<exists>e. readValuesFile w path = Inl e"
  using assms by (simp add: readValuesFile_def fetched_def)

lemma readValuesFile_decode_error:
  assumes "fetched w path = Inr (data, None, baseDir)" and "path \<noteq> []"
    and "Expand (EnvTable w) data = Inr expanded" and "UnmarshalMap w expanded = Inl err"
  shows "readValuesFile w path = Inl (Wrap (''decode yaml '' @ path) err)"
  using assms by (simp add: readValuesFile_def)

lemma readValuesFile_decrypt_error:
  assumes "fetched w path = Inr (data, None, baseDir)" and "path \<noteq> []"
    and "Expand (EnvTable w) data = Inr expanded" and "UnmarshalMap w expanded = Inr decoded"
    and "snd (decryptValues w (VMap decoded) baseDir) = Inl err"
  shows "readValuesFile w path = Inl (Wrap (''decrypt secrets in '' @ path) err)"
  using assms by (simp add: readValuesFile_def del: decryptValues.simps)

lemma readValuesFile_remote_fetch_error:
  assumes "path \<noteq> []" and "ParseScheme path \<noteq> ''local''"
    and "Factory_New (URLParse w) path = Inr src" and "SourceFetch w src = (data, Some err)"
  shows "fetched w path = Inr (data, None, [])"
  using assms by (simp add: fetched_def)

section \<open>Claims about tree decryption\<close>




text \<open>
  C1, as the code has it. A key \<open>k.enc\<close> bound to a string that itself ends in \<open>.enc\<close>:
  when tree decryption succeeds, \<open>DecryptFile\<close> returned the plaintext of the resolved
  reference and the output binds \<open>k\<close> to the empty string when the trimmed plaintext is
  empty, to its YAML reading when it parses, and to the trimmed plaintext otherwise. The key
  \<open>k.enc\<close> is absent from the output unless the input also holds \<open>k.enc.enc\<close>.
\<close>

theorem enc_key_decrypted:
  assumes "map_of v (k @ ''.enc'') = Some (VStr ref)" and "HasSuffix ref ''.enc''"
    and "snd (decryptValues w (VMap v) baseDir) = Inr out"
  shows "\<exists>r data. out = VMap r \<and>
           DecryptFile w (resolvePath w ref baseDir) = Inr data \<and>
           map_of r k = Some
             (let trimmed = TrimSpace w data in
              if trimmed = [] then VStr []
              else case Unmarshal w trimmed of Inr parsed \<Rightarrow> parsed | Inl _ \<Rightarrow> VStr trimmed) \<and>
           (k @ ''.enc'' @ ''.enc'' \<notin> fst ` set v \<longrightarrow> map_of r (k @ ''.enc'') = None)"
proof -
  from assms(1) have mem: "k @ ''.enc'' \<in> fst ` set v"
    by (metis fst_conv image_eqI map_of_SomeD)
  from assms(1) have idx: "index v (k @ ''.enc'') = VStr ref" by (simp add: index_def)
  from decryptValues_enc_key [OF assms(3) mem] idx obtain r pv where r:
    "out = VMap r" "snd (decryptValues w (VStr ref) baseDir) = Inr pv" "map_of r k = Some pv"
    by auto
  from r(2) assms(2) have dv: "snd (decryptValue w ref baseDir) = Inr pv" by simp
  then obtain data where data: "DecryptFile w (resolvePath w ref baseDir) = Inr data"
    by (cases "DecryptFile w (resolvePath w ref baseDir)") (auto simp: decryptValue_def)
  with dv have "pv = (let trimmed = TrimSpace w data in
              if trimmed = [] then VStr []
              else case Unmarshal w trimmed of Inr parsed \<Rightarrow> parsed | Inl _ \<Rightarrow> VStr trimmed)"
    by (auto simp: decryptValue_def Let_def split: sum.splits if_splits)
  moreover have "k @ ''.enc'' @ ''.enc'' \<notin> fst ` set v \<longrightarrow> map_of r (k @ ''.enc'') = None"
    using decryptValues_no_enc_key [of w v baseDir r "k @ ''.enc''"] assms(3) r(1) by simp
  ultimately show ?thesis using r(1,3) data by blast
qed

text \<open>
  The example of the specification, with the reference \<open>token.enc\<close> under the key
  \<open>token.enc\<close>: the output is \<open>{"token": "secret123"}\<close>.
\<close>

theorem enc_key_decrypted_witness:
  "map_of [(''token.enc'', VStr ''token.enc'')] (''token'' @ ''.enc'') = Some (VStr ''token.enc'') \<and>
   HasSuffix ''token.enc'' ''.enc'' \<and>
   snd (decryptValues exampleWorld (VMap [(''token.enc'', VStr ''token.enc'')]) ''conf'') =
     Inr (VMap [(''token'', VStr ''secret123'')]) \<and>
   map_of [(''token'', VStr ''secret123'')] ''token'' = Some (VStr ''secret123'') \<and>
   map_of [(''token'', VStr ''secret123'')] ''token.enc'' = None"
proof -
  let ?v = "[(''token.enc'', VStr ''token.enc'')]"
  have 1: "map_of ?v (''token'' @ ''.enc'') = Some (VStr ''token.enc'')" by simp
  have 2: "HasSuffix ''token.enc'' ''.enc''" by (simp add: HasSuffix_def)
  have 3: "snd (decryptValues exampleWorld (VMap ?v) ''conf'') =
     Inr (VMap [(''token'', VStr ''secret123'')])" by (simp add: ex_simps)
  from enc_key_decrypted [OF 1 2 3] 1 2 3 show ?thesis by simp
qed

text \<open>
  C1 as stated fails: under the key \<open>token.enc\<close> the reference \<open>secrets/token\<close>, whose
  file decrypts to \<open>secret123\<close>, is never passed to \<open>DecryptFile\<close>, and the output binds
  \<open>token\<close> to the reference itself.
\<close>

theorem enc_key_plain_value_counterexample:
  "DecryptFile exampleWorld (resolvePath exampleWorld ''secrets/token'' ''conf'') =
     Inr (''secret123'' @ [CHR 0x0A]) \<and>
   decryptValues exampleWorld (VMap [(''token.enc'', VStr ''secrets/token'')]) ''conf'' =
     ([], Inr (VMap [(''token'', VStr ''secrets/token'')]))"
  by (simp add: ex_simps)

text \<open>
  C4, as the code has it. A key \<open>k.enc\<close> bound to a value that is not a string raises no
  error of its own: when every value of the mapping is processed without error, so is the
  mapping, and \<open>k\<close> is bound to the processed value, which is the value itself for a
  number, a boolean, null or any other scalar.
\<close>

theorem enc_key_nonstring_passes:
  assumes "map_of v (k @ ''.enc'') = Some x" and "\<forall>s. x \<noteq> VStr s"
    and "\<forall>key\<in>fst ` set v. \<exists>pv. snd (decryptValues w (index v key) baseDir) = Inr pv"
  shows "\<exists>r pv. snd (decryptValues w (VMap v) baseDir) = Inr (VMap r) \<and>
           snd (decryptValues w x baseDir) = Inr pv \<and> map_of r k = Some pv \<and>
           ((\<forall>xs. x \<noteq> VList xs) \<and> (\<forall>kvs. x \<noteq> VMap kvs) \<longrightarrow> pv = x)"
proof -
  from assms(1) have mem: "k @ ''.enc'' \<in> fst ` set v"
    by (metis fst_conv image_eqI map_of_SomeD)
  from assms(1) have idx: "index v (k @ ''.enc'') = x" by (simp add: index_def)
  from assms(3) have "\<forall>key\<in>set (sort (map fst v)).
      \<exists>pv. snd (decryptValues w (index v key) baseDir) = Inr pv" by simp
  from decryptKeys_succeeds [OF this, of "[]"]
  obtain out where out: "snd (decryptValues w (VMap v) baseDir) = Inr out" by auto
  from decryptValues_enc_key [OF out mem] idx obtain r pv where r:
    "out = VMap r" "snd (decryptValues w x baseDir) = Inr pv" "map_of r k = Some pv"
    by auto
  have "(\<forall>xs. x \<noteq> VList xs) \<and> (\<forall>kvs. x \<noteq> VMap kvs) \<longrightarrow> pv = x"
    using r(2) assms(2) by (cases x) auto
  with r out show ?thesis by auto
qed

text \<open>The mapping \<open>{"port.enc": 8080}\<close> becomes \<open>{"port": 8080}\<close>.\<close>

theorem enc_key_nonstring_passes_witness:
  "map_of [(''port.enc'', VInt 8080)] (''port'' @ ''.enc'') = Some (VInt 8080) \<and>
   snd (decryptValues exampleWorld (VMap [(''port.enc'', VInt 8080)]) ''conf'') =
     Inr (VMap [(''port'', VInt 8080)])"
proof -
  let ?v = "[(''port.enc'', VInt 8080)]"
  have 1: "map_of ?v (''port'' @ ''.enc'') = Some (VInt 8080)" by simp
  have 2: "\<forall>s. VInt 8080 \<noteq> VStr s" by simp
  have 3: "\<forall>key\<in>fst ` set ?v. \<exists>pv. snd (decryptValues exampleWorld (index ?v key) ''conf'') = Inr pv"
    by (simp add: index_def)
  from enc_key_nonstring_passes [OF 1 2 3] 1 show ?thesis by (simp add: ex_simps)
qed

text \<open>
  C4 as stated fails: a number under a key ending in \<open>.enc\<close> is passed through, with no
  error.
\<close>

theorem enc_key_number_counterexample:
  "decryptValues exampleWorld (VMap [(''port.enc'', VInt 8080)]) ''conf'' =
     ([], Inr (VMap [(''port'', VInt 8080)]))"
  by (simp add: ex_simps)

text \<open>
  C2, as the code has it. Whether a string leaf is decrypted is decided by its own suffix,
  among the strings the walk reaches: those at any depth of lists and of maps with string
  keys. Every path passed to \<open>DecryptFile\<close> is the resolved path of such a string that
  ends in \<open>.enc\<close>; when no map of the walked tree binds a key twice and decryption returns
  a result, these are exactly the paths passed; and when decryption returns an error, the
  walk stopped at a call of \<open>DecryptFile\<close> that failed. A string element of a list that
  ends in \<open>.enc\<close> is passed to \<open>DecryptFile\<close>; a string that does not end in \<open>.enc\<close>
  is returned as it is, with no call, also under a key that ends in \<open>.enc\<close>; and a map
  with keys of any type is returned as it is, with no call.
\<close>

theorem decrypt_decided_by_value_suffix:
  "set (fst (decryptValues w node baseDir)) \<subseteq>
     (\<lambda>s. resolvePath w s baseDir) ` {s \<in> walked_strings node. HasSuffix s ''.enc''} \<and>
   (wf_node node \<and> (\<exists>out. snd (decryptValues w node baseDir) = Inr out) \<longrightarrow>
      set (fst (decryptValues w node baseDir)) =
        (\<lambda>s. resolvePath w s baseDir) ` {s \<in> walked_strings node. HasSuffix s ''.enc''}) \<and>
   ((\<exists>e. snd (decryptValues w node baseDir) = Inl e) \<longrightarrow>
      fst (decryptValues w node baseDir) \<noteq> [] \<and>
      (\<exists>e'. DecryptFile w (last (fst (decryptValues w node baseDir))) = Inl e')) \<and>
   (HasSuffix s ''.enc'' \<longrightarrow>
      fst (decryptValues w (VList [VStr s]) baseDir) = [resolvePath w s baseDir]) \<and>
   (\<not> HasSuffix s ''.enc'' \<longrightarrow>
      decryptValues w (VMap [(k @ ''.enc'', VStr s)]) baseDir = ([], Inr (VMap [(k, VStr s)]))) \<and>
   decryptValues w (VAnyMap m) baseDir = ([], Inr (VAnyMap m))"
proof -
  have "fst (decryptValues w (VList [VStr s]) baseDir) = [resolvePath w s baseDir]"
    if "HasSuffix s ''.enc''"
    using that fst_decryptValue [of w s baseDir]
    by (cases "decryptValue w s baseDir") (auto split: sum.splits)
  moreover have "decryptValues w (VMap [(k @ ''.enc'', VStr s)]) baseDir =
      ([], Inr (VMap [(k, VStr s)]))" if "\<not> HasSuffix s ''.enc''"
    using that by (simp add: index_def)
  moreover have "fst (decryptValues w node baseDir) \<noteq> [] \<and>
      (\<exists>e'. DecryptFile w (last (fst (decryptValues w node baseDir))) = Inl e')"
    if "\<exists>e. snd (decryptValues w node baseDir) = Inl e"
    using that error_mutual(1) [of w node baseDir] by blast
  moreover have "decryptValues w (VAnyMap m) baseDir = ([], Inr (VAnyMap m))" by simp
  ultimately show ?thesis
    using calls_mutual(1) [of w node baseDir] unfolding encPaths_def by blast
qed

text \<open>
  In \<open>{"a.enc": "plain", "b": ["x.enc"], "o": {1: "y.enc"}}\<close> the only call is for the
  list element.
\<close>

theorem decrypt_decided_by_value_suffix_witness:
  "wf_node (VMap [(''a.enc'', VStr ''plain''), (''b'', VList [VStr ''x.enc'']),
                  (''o'', VAnyMap [(VInt 1, VStr ''y.enc'')])]) \<and>
   decryptValues exampleWorld
      (VMap [(''a.enc'', VStr ''plain''), (''b'', VList [VStr ''x.enc'']),
             (''o'', VAnyMap [(VInt 1, VStr ''y.enc'')])]) ''conf'' =
     ([''conf/x.enc''],
      Inr (VMap [(''a'', VStr ''plain''), (''b'', VList [VStr ''secret123'']),
                 (''o'', VAnyMap [(VInt 1, VStr ''y.enc'')])])) \<and>
   (\<lambda>s. resolvePath exampleWorld s ''conf'') `
      {s \<in> walked_strings (VMap [(''a.enc'', VStr ''plain''), (''b'', VList [VStr ''x.enc'']),
                                  (''o'', VAnyMap [(VInt 1, VStr ''y.enc'')])]).
         HasSuffix s ''.enc''} = {''conf/x.enc''} \<and>
   HasSuffix ''x.enc'' ''.enc'' \<and> \<not> HasSuffix ''plain'' ''.enc''"
proof -
  let ?t = "VMap [(''a.enc'', VStr ''plain''), (''b'', VList [VStr ''x.enc'']),
                  (''o'', VAnyMap [(VInt 1, VStr ''y.enc'')])]"
  have wf: "wf_node ?t" by simp
  have run: "decryptValues exampleWorld ?t ''conf'' =
     ([''conf/x.enc''],
      Inr (VMap [(''a'', VStr ''plain''), (''b'', VList [VStr ''secret123'']),
                 (''o'', VAnyMap [(VInt 1, VStr ''y.enc'')])]))"
    by (simp add: ex_simps)
  have s1: "HasSuffix ''x.enc'' ''.enc''" and s2: "\<not> HasSuffix ''plain'' ''.enc''"
    by (simp_all add: HasSuffix_def)
  have ok: "wf_node ?t \<and> (\<exists>out. snd (decryptValues exampleWorld ?t ''conf'') = Inr out)"
    using wf run by simp
  from decrypt_decided_by_value_suffix [of exampleWorld ?t "''conf''" "''x.enc''" "''a''"] ok
  have "set (fst (decryptValues exampleWorld ?t ''conf'')) =
      (\<lambda>s. resolvePath exampleWorld s ''conf'') ` {s \<in> walked_strings ?t. HasSuffix s ''.enc''}"
    by blast
  with run have "(\<lambda>s. resolvePath exampleWorld s ''conf'') `
      {s \<in> walked_strings ?t. HasSuffix s ''.enc''} = {''conf/x.enc''}" by simp
  with wf run s1 s2 show ?thesis by blast
qed

text \<open>
  C2 as stated fails: in \<open>{"o": {1: "x.enc"}}\<close> the string \<open>x.enc\<close> is a string value of
  the tree that ends in \<open>.enc\<close>, and decryption returns the tree as it is without a call
  of \<open>DecryptFile\<close>.
\<close>

theorem unwalked_enc_string_counterexample:
  "decryptValues exampleWorld (VMap [(''o'', VAnyMap [(VInt 1, VStr ''x.enc'')])]) ''conf'' =
     ([], Inr (VMap [(''o'', VAnyMap [(VInt 1, VStr ''x.enc'')])])) \<and>
   ''x.enc'' \<in> strings_of (VMap [(''o'', VAnyMap [(VInt 1, VStr ''x.enc'')])]) \<and>
   HasSuffix ''x.enc'' ''.enc''"
  by (simp add: ex_simps)

text \<open>
  C5, as the code has it. When tree decryption succeeds on a tree in which no mapping key
  that the walk reaches ends in \<open>.enc.enc\<close>, no key inside a map with keys of any type
  that the walk meets ends in \<open>.enc\<close>, and no decrypted payload that is substituted holds
  a mapping key ending in \<open>.enc\<close>, no mapping key of the output, at any depth and in
  maps of either kind, ends in \<open>.enc\<close>.
\<close>

theorem no_enc_key_in_output:
  assumes "snd (decryptValues w node baseDir) = Inr out"
    and "\<forall>k\<in>walked_keys node. \<not> HasSuffix k ''.enc.enc''"
    and "\<forall>k\<in>unwalked_keys node. \<not> HasSuffix k ''.enc''"
    and "\<forall>s\<in>walked_strings node. HasSuffix s ''.enc'' \<longrightarrow>
           (\<forall>pv. snd (decryptValue w s baseDir) = Inr pv \<longrightarrow>
              (\<forall>k\<in>keys_of pv. \<not> HasSuffix k ''.enc''))"
  shows "\<forall>k\<in>keys_of out. \<not> HasSuffix k ''.enc''"
proof -
  from assms(2,3,4) have "cleanInput w baseDir node"
    by (simp add: cleanInput_def noEncKeys_def)
  from noEncKeys_mutual(1) [OF this assms(1)] show ?thesis by (simp add: noEncKeys_def)
qed

text \<open>
  A nested mapping with one secret and a map with a key that is a number: the output
  keys are \<open>db\<close>, \<open>password\<close>, \<open>hosts\<close>, \<open>ports\<close> and \<open>name\<close>.
\<close>

theorem no_enc_key_in_output_witness:
  "snd (decryptValues exampleWorld
      (VMap [(''db'', VMap [(''password.enc'', VStr ''pw.enc'')]), (''hosts'', VList [VStr ''a'']),
             (''ports'', VAnyMap [(VInt 80, VStr ''http''), (VStr ''name'', VStr ''web'')])])
      ''conf'') =
     Inr (VMap [(''db'', VMap [(''password'', VStr ''secret123'')]), (''hosts'', VList [VStr ''a'']),
                (''ports'', VAnyMap [(VInt 80, VStr ''http''), (VStr ''name'', VStr ''web'')])]) \<and>
   keys_of (VMap [(''db'', VMap [(''password'', VStr ''secret123'')]),
        (''hosts'', VList [VStr ''a'']),
        (''ports'', VAnyMap [(VInt 80, VStr ''http''), (VStr ''name'', VStr ''web'')])]) =
     {''db'', ''password'', ''hosts'', ''ports'', ''name''} \<and>
   \<not> HasSuffix ''db'' ''.enc'' \<and> \<not> HasSuffix ''password'' ''.enc'' \<and>
   \<not> HasSuffix ''hosts'' ''.enc'' \<and> \<not> HasSuffix ''ports'' ''.enc'' \<and>
   \<not> HasSuffix ''name'' ''.enc''"
proof -
  let ?t = "VMap [(''db'', VMap [(''password.enc'', VStr ''pw.enc'')]), (''hosts'', VList [VStr ''a'']),
             (''ports'', VAnyMap [(VInt 80, VStr ''http''), (VStr ''name'', VStr ''web'')])]"
  let ?out = "VMap [(''db'', VMap [(''password'', VStr ''secret123'')]), (''hosts'', VList [VStr ''a'']),
                (''ports'', VAnyMap [(VInt 80, VStr ''http''), (VStr ''name'', VStr ''web'')])]"
  have 1: "snd (decryptValues exampleWorld ?t ''conf'') = Inr ?out" by (simp add: ex_simps)
  have 2: "\<forall>k\<in>walked_keys ?t. \<not> HasSuffix k ''.enc.enc''" by (simp add: HasSuffix_def)
  have 3: "\<forall>k\<in>unwalked_keys ?t. \<not> HasSuffix k ''.enc''" by (simp add: HasSuffix_def)
  have 4: "\<forall>s\<in>walked_strings ?t. HasSuffix s ''.enc'' \<longrightarrow>
           (\<forall>pv. snd (decryptValue exampleWorld s ''conf'') = Inr pv \<longrightarrow>
              (\<forall>k\<in>keys_of pv. \<not> HasSuffix k ''.enc''))"
    by (auto simp: ex_simps)
  have 5: "keys_of ?out = {''db'', ''password'', ''hosts'', ''ports'', ''name''}" by auto
  from no_enc_key_in_output [OF 1 2 3 4] 1 5 show ?thesis by simp
qed

text \<open>
  C5 as stated fails: \<^verbatim>\<open>strings.TrimSuffix\<close> removes one suffix, so the key \<open>a.enc.enc\<close>
  becomes the output key \<open>a.enc\<close>.
\<close>

theorem double_enc_key_counterexample:
  "snd (decryptValues exampleWorld (VMap [(''a.enc.enc'', VInt 1)]) ''conf'') =
     Inr (VMap [(''a.enc'', VInt 1)]) \<and>
   ''a.enc'' \<in> keys_of (VMap [(''a.enc'', VInt 1)]) \<and> HasSuffix ''a.enc'' ''.enc''"
  by (simp add: ex_simps)

section \<open>Claims about environment expansion\<close>

text \<open>
  C9. \<open>Expand\<close> never fails: it always returns a result and no error. On an input in
  which every placeholder \<open>${NAME}\<close> has a name absent from the variable table (in
  particular on an input without placeholders) it returns the input unchanged. A
  placeholder whose name is absent from the table is left verbatim wherever it stands: the
  output is the expansion of the text before it, the placeholder, and the expansion of the
  text after it. With the empty table, \<open>${FOO}\<close> is returned as \<open>${FOO}\<close>.
\<close>

theorem Expand_never_fails:
  "(\<exists>out. Expand r data = Inr out) \<and>
   ((\<forall>pre name post. data = pre @ ''${'' @ name @ ''}'' @ post \<and> name \<noteq> [] \<and>
        (\<forall>c\<in>set name. isNameChar c) \<longrightarrow> r name = None) \<longrightarrow>
      Expand r data = Inr data) \<and>
   (name \<noteq> [] \<and> (\<forall>c\<in>set name. isNameChar c) \<and> r name = None \<longrightarrow>
      (\<exists>a b. Expand r pre = Inr a \<and> Expand r post = Inr b \<and>
         Expand r (pre @ ''${'' @ name @ ''}'' @ post) = Inr (a @ ''${'' @ name @ ''}'' @ b))) \<and>
   Expand Map.empty ''${FOO}'' = Inr ''${FOO}''"
proof -
  let ?repl = "\<lambda>match. let groups = FindSubmatch match in
       if length groups \<noteq> 2 then match
       else (let key = groups ! 1 in case r key of Some val \<Rightarrow> val | None \<Rightarrow> match)"
  have verbatim: "?repl (''${'' @ n @ ''}'') = ''${'' @ n @ ''}''"
    if "n \<noteq> []" "\<forall>c\<in>set n. isNameChar c" "r n = None" for n
    using FindSubmatch_placeholder [OF that(1,2)] that(3) by (simp add: Let_def)
  have 1: "\<exists>out. Expand r data = Inr out" by (simp add: Expand_def)
  have 2: "Expand r data = Inr data"
    if h: "\<forall>pre name post. data = pre @ ''${'' @ name @ ''}'' @ post \<and> name \<noteq> [] \<and>
        (\<forall>c\<in>set name. isNameChar c) \<longrightarrow> r name = None"
  proof -
    have "ReplaceAllFunc ?repl data = data"
    proof (rule ReplaceAllFunc_id, intro allI impI)
      fix pre name post
      assume a: "data = pre @ ''${'' @ name @ ''}'' @ post \<and> name \<noteq> [] \<and>
        (\<forall>c\<in>set name. isNameChar c)"
      with h have "r name = None" by blast
      with a show "?repl (''${'' @ name @ ''}'') = ''${'' @ name @ ''}''"
        using verbatim by blast
    qed
    then show ?thesis by (simp add: Expand_def)
  qed
  have 3: "\<exists>a b. Expand r pre = Inr a \<and> Expand r post = Inr b \<and>
         Expand r (pre @ ''${'' @ name @ ''}'' @ post) = Inr (a @ ''${'' @ name @ ''}'' @ b)"
    if h: "name \<noteq> [] \<and> (\<forall>c\<in>set name. isNameChar c) \<and> r name = None"
  proof -
    from h have mp: "matchPrefix (''${'' @ name @ ''}'' @ post) = Some (name, post)"
      by (intro matchPrefix_placeholder) auto
    have "ReplaceAllFunc ?repl (pre @ ''${'' @ name @ ''}'' @ post) =
        ReplaceAllFunc ?repl pre @ ReplaceAllFunc ?repl (''${'' @ name @ ''}'' @ post)"
      using ReplaceAllFunc_append_dollar [of ?repl pre "CHR ''{'' # name @ ''}'' @ post"] by simp
    also have "ReplaceAllFunc ?repl (''${'' @ name @ ''}'' @ post) =
        ?repl (''${'' @ name @ ''}'') @ ReplaceAllFunc ?repl post"
      using mp by simp
    also have "?repl (''${'' @ name @ ''}'') = ''${'' @ name @ ''}''"
      using verbatim h by blast
    finally show ?thesis by (simp add: Expand_def)
  qed
  have 4: "Expand Map.empty ''${FOO}'' = Inr ''${FOO}''" by (simp add: expand_simps)
  from 1 2 3 4 show ?thesis by blast
qed

text \<open>
  With \<open>HOME\<close> in the table: a text without placeholders is unchanged, and \<open>${FOO}\<close>
  stays between two expanded occurrences of \<open>${HOME}\<close>.
\<close>

theorem Expand_never_fails_witness:
  "Expand (Map.empty(''HOME'' \<mapsto> ''/root'')) ''no placeholder: $HOME {HOME}'' =
     Inr ''no placeholder: $HOME {HOME}'' \<and>
   Expand (Map.empty(''HOME'' \<mapsto> ''/root'')) (''${HOME}:'' @ ''${'' @ ''FOO'' @ ''}'' @ '':${HOME}'') =
     Inr (''/root:'' @ ''${'' @ ''FOO'' @ ''}'' @ '':/root'')"
proof -
  let ?r = "Map.empty(''HOME'' \<mapsto> ''/root'')"
  let ?d = "''no placeholder: $HOME {HOME}''"
  have none: "\<forall>pre name post. ?d = pre @ ''${'' @ name @ ''}'' @ post \<and> name \<noteq> [] \<and>
        (\<forall>c\<in>set name. isNameChar c) \<longrightarrow> ?r name = None"
  proof (intro allI impI)
    fix pre name post
    assume a: "?d = pre @ ''${'' @ name @ ''}'' @ post \<and> name \<noteq> [] \<and>
        (\<forall>c\<in>set name. isNameChar c)"
    then have "?d = pre @ CHR ''$'' # CHR ''{'' # (name @ ''}'' @ post)" by simp
    then have False
      by (simp add: append_eq_Cons_conv Cons_eq_append_conv)
    then show "?r name = None" ..
  qed
  have nm: "''FOO'' \<noteq> [] \<and> (\<forall>c\<in>set ''FOO''. isNameChar c) \<and> ?r ''FOO'' = None"
    by (simp add: isNameChar_def)
  have a: "Expand ?r ''${HOME}:'' = Inr ''/root:''" and b: "Expand ?r '':${HOME}'' = Inr '':/root''"
    by (simp_all add: expand_simps)
  from Expand_never_fails [of ?r ?d "''FOO''" "''${HOME}:''" "'':${HOME}''"] none nm a b
  show ?thesis by auto
qed

section \<open>Claims about the git source\<close>

text \<open>
  C6, as the code has it. When the anonymous clone fails, \<open>Fetch\<close> clones once more, with
  basic-auth credentials, exactly when at least one of \<open>TMPL_GIT_USERNAME\<close> and
  \<open>TMPL_GIT_PASSWORD\<close> is set to a non-empty value; when neither is, the anonymous clone
  is the only attempt. When the anonymous clone succeeds there is no second attempt.
\<close>

theorem clone_retry_when_any_credential:
  "(snd (PlainCloneContext w fs (TempDir w) (URLString w (gurl g)) None) = Inl err \<longrightarrow>
      fst (Fetch w fs g) =
        (if Getenv (Environ w) ''TMPL_GIT_USERNAME'' = [] \<and>
            Getenv (Environ w) ''TMPL_GIT_PASSWORD'' = []
         then [None]
         else [None, Some \<lparr>Username = Getenv (Environ w) ''TMPL_GIT_USERNAME'',
                           Password = Getenv (Environ w) ''TMPL_GIT_PASSWORD''\<rparr>])) \<and>
   (snd (PlainCloneContext w fs (TempDir w) (URLString w (gurl g)) None) = Inr repo \<longrightarrow>
      fst (Fetch w fs g) = [None])"
  by (auto simp: Fetch_def basicAuthFromEnv_def Let_def split: prod.splits sum.splits option.splits)

text \<open>Both variables set: two attempts. Neither set: one attempt.\<close>

theorem clone_retry_when_any_credential_witness:
  "fst (Fetch (exampleGitWorld (Map.empty(''TMPL_GIT_USERNAME'' \<mapsto> ''u'', ''TMPL_GIT_PASSWORD'' \<mapsto> ''p'')))
         () exampleGitSource) = [None, Some \<lparr>Username = ''u'', Password = ''p''\<rparr>] \<and>
   fst (Fetch (exampleGitWorld Map.empty) () exampleGitSource) = [None]"
proof -
  let ?w2 = "exampleGitWorld (Map.empty(''TMPL_GIT_USERNAME'' \<mapsto> ''u'', ''TMPL_GIT_PASSWORD'' \<mapsto> ''p''))"
  let ?w0 = "exampleGitWorld Map.empty"
  have f2: "snd (PlainCloneContext ?w2 () (TempDir ?w2) (URLString ?w2 (gurl exampleGitSource)) None) =
      Inl (Err ''authentication required'')"
    by (simp add: exampleGitWorld_def)
  have f0: "snd (PlainCloneContext ?w0 () (TempDir ?w0) (URLString ?w0 (gurl exampleGitSource)) None) =
      Inl (Err ''authentication required'')"
    by (simp add: exampleGitWorld_def)
  have e2: "Getenv (Environ ?w2) ''TMPL_GIT_USERNAME'' = ''u''"
    "Getenv (Environ ?w2) ''TMPL_GIT_PASSWORD'' = ''p''"
    by (simp_all add: exampleGitWorld_def Getenv_def)
  have e0: "Getenv (Environ ?w0) ''TMPL_GIT_USERNAME'' = []"
    "Getenv (Environ ?w0) ''TMPL_GIT_PASSWORD'' = []"
    by (simp_all add: exampleGitWorld_def Getenv_def)
  from clone_retry_when_any_credential [of ?w2 "()" exampleGitSource "Err ''authentication required''"]
    f2 e2
  have "fst (Fetch ?w2 () exampleGitSource) = [None, Some \<lparr>Username = ''u'', Password = ''p''\<rparr>]"
    by simp
  moreover
  from clone_retry_when_any_credential [of ?w0 "()" exampleGitSource "Err ''authentication required''"]
    f0 e0
  have "fst (Fetch ?w0 () exampleGitSource) = [None]" by simp
  ultimately show ?thesis by simp
qed

text \<open>
  C6 as stated fails: with the user name set and the password not set, the clone is retried,
  with an empty password.
\<close>

theorem clone_retry_one_credential_counterexample:
  "Getenv (Map.empty(''TMPL_GIT_USERNAME'' \<mapsto> ''u'')) ''TMPL_GIT_PASSWORD'' = [] \<and>
   Fetch (exampleGitWorld (Map.empty(''TMPL_GIT_USERNAME'' \<mapsto> ''u''))) () exampleGitSource =
     ([None, Some \<lparr>Username = ''u'', Password = []\<rparr>], (), Inr ''a: 1'')"
  by (simp add: git_simps)

section \<open>Claims about the structural expansion\<close>

text \<open>
  C8. \<open>ExpandMap\<close> at a list nested in a list: with \<open>FOO\<close> bound to \<open>bar\<close>, the string
  \<open>${FOO}\<close> in \<open>{"k": [["${FOO}"]]}\<close> is left as it is, while the same string as an item of
  a list under a key, or as a value of a nested mapping, is expanded.
\<close>

theorem ExpandMap_skips_list_in_list:
  "ExpandMap (Map.empty(''FOO'' \<mapsto> ''bar'')) [(''k'', VList [VList [VStr ''${FOO}'']])] =
     Inr [(''k'', VList [VList [VStr ''${FOO}'']])] \<and>
   ExpandMap (Map.empty(''FOO'' \<mapsto> ''bar'')) [(''k'', VList [VStr ''${FOO}''])] =
     Inr [(''k'', VList [VStr ''bar''])] \<and>
   ExpandMap (Map.empty(''FOO'' \<mapsto> ''bar'')) [(''k'', VMap [(''j'', VStr ''${FOO}'')])] =
     Inr [(''k'', VMap [(''j'', VStr ''bar'')])]"
  by (simp add: expand_simps)

section \<open>Claims about loading\<close>

text \<open>
  C7. \<open>Load\<close> with a missing base file and the extra file \<open>s3://bucket/values.yaml\<close>, whose
  fetch fails: the load returns the empty tree and no error. The same load with a local
  extra file that cannot be read returns the read error, and with a local extra file that
  decodes to \<open>{"a": 1}\<close> it returns \<open>{"a": 1}\<close>.
\<close>

theorem Load_drops_fetch_error:
  "SourceFetch exampleWorld (S3Source ''bucket'' ''values.yaml'') = ([], Some (Err ''access denied'')) \<and>
   Load exampleWorld ''chart'' [''s3://bucket/values.yaml''] = Inr [] \<and>
   Load (fileWorld (Map.empty(''extra.yaml'' \<mapsto> Inl (Err ''permission denied''))) Map.empty)
        ''chart'' [''extra.yaml''] =
     Inl (Wrap ''read values file extra.yaml'' (Err ''permission denied'')) \<and>
   Load (fileWorld (Map.empty(''extra.yaml'' \<mapsto> Inr ''a: 1''))
                   (Map.empty(''a: 1'' \<mapsto> [(''a'', VInt 1)])))
        ''chart'' [''extra.yaml''] = Inr [(''a'', VInt 1)]"
proof -
  have "SourceFetch exampleWorld (S3Source ''bucket'' ''values.yaml'') =
      ([], Some (Err ''access denied''))"
    by (simp add: exampleWorld_def)
  moreover have "Load exampleWorld ''chart'' [''s3://bucket/values.yaml''] = Inr []"
    by (simp add: load_simps)
  moreover have "Load (fileWorld (Map.empty(''extra.yaml'' \<mapsto> Inl (Err ''permission denied''))) Map.empty)
        ''chart'' [''extra.yaml''] =
     Inl (Wrap ''read values file extra.yaml'' (Err ''permission denied''))"
    by (simp add: load_simps)
  moreover have "Load (fileWorld (Map.empty(''extra.yaml'' \<mapsto> Inr ''a: 1''))
                   (Map.empty(''a: 1'' \<mapsto> [(''a'', VInt 1)])))
        ''chart'' [''extra.yaml''] = Inr [(''a'', VInt 1)]"
    by (simp add: load_simps matchPrefix_def isNameChar_def Let_def index_def TrimSuffix_def HasSuffix_def)
  ultimately show ?thesis by blast
qed

section \<open>Claims about the merge engine\<close>


end
